theory Spec2Isabelle
  imports Main
begin

section \<open>Constants and data model of checkers.py\<close>

definition ROWS :: int where "ROWS = 8"
definition COLS :: int where "COLS = 8"
definition WIDTH :: int where "WIDTH = 800"
definition SQUARE_SIZE :: int where "SQUARE_SIZE = WIDTH div COLS"

text \<open>The two colours a \<open>Piece\<close> is ever constructed with (\<open>create_board\<close>).\<close>

datatype color = RED | WHITE

text \<open>
  The exceptions the modelled code can raise: a list index out of range, an attribute
  read on the integer \<open>0\<close> (the empty-square marker), and \<open>range\<close> with step 0.
\<close>

datatype error = IndexError | AttributeError | ValueError

text \<open>
  \<open>Piece\<close> objects are mutable and shared: the grid, the captured lists of a move
  mapping and \<open>Game.selected\<close> all hold references to them. A reference is an address
  into a store of pieces; a grid square holds \<open>0\<close> (\<open>Empty\<close>) or a reference.
\<close>

type_synonym ref = nat

record Piece =
  row :: int
  col :: int
  color :: color
  king :: bool
  x :: int
  y :: int

type_synonym heap = "ref \<Rightarrow> Piece"

datatype square = Empty | Ref ref

record Board =
  board :: "square list list"
  red_left :: int
  white_left :: int
  red_kings :: int
  white_kings :: int

type_synonym moves = "(int \<times> int) \<rightharpoonup> square list"

record Game =
  selected :: "ref option"
  game_board :: Board
  turn :: color
  valid_moves :: moves

section \<open>Python list indexing\<close>

text \<open>
  \<open>xs[i]\<close>: an index from \<open>-len\<close> to \<open>-1\<close> counts from the end, anything outside
  \<open>-len .. len-1\<close> raises IndexError.
\<close>

definition py_pos :: "'a list \<Rightarrow> int \<Rightarrow> error + nat" where
  "py_pos xs i =
     (if 0 \<le> i \<and> i < int (length xs) then Inr (nat i)
      else if - int (length xs) \<le> i \<and> i < 0 then Inr (nat (int (length xs) + i))
      else Inl IndexError)"

definition py_index :: "'a list \<Rightarrow> int \<Rightarrow> error + 'a" where
  "py_index xs i = (case py_pos xs i of Inl e \<Rightarrow> Inl e | Inr j \<Rightarrow> Inr (xs ! j))"

definition py_setitem :: "'a list \<Rightarrow> int \<Rightarrow> 'a \<Rightarrow> error + 'a list" where
  "py_setitem xs i v = (case py_pos xs i of Inl e \<Rightarrow> Inl e | Inr j \<Rightarrow> Inr (xs[j := v]))"

text \<open>\<open>grid[r][c]\<close> and \<open>grid[r][c] = v\<close> on a list of row lists.\<close>

definition grid_get :: "square list list \<Rightarrow> int \<Rightarrow> int \<Rightarrow> error + square" where
  "grid_get g r c = (case py_index g r of Inl e \<Rightarrow> Inl e | Inr rw \<Rightarrow> py_index rw c)"

definition grid_set :: "square list list \<Rightarrow> int \<Rightarrow> int \<Rightarrow> square \<Rightarrow> error + square list list" where
  "grid_set g r c v =
     (case py_index g r of Inl e \<Rightarrow> Inl e
      | Inr rw \<Rightarrow> (case py_setitem rw c v of Inl e \<Rightarrow> Inl e
                   | Inr rw' \<Rightarrow> py_setitem g r rw'))"

section \<open>Piece\<close>

definition calc_pos :: "Piece \<Rightarrow> Piece" where
  "calc_pos p = p\<lparr>x := SQUARE_SIZE * col p + SQUARE_SIZE div 2,
                  y := SQUARE_SIZE * row p + SQUARE_SIZE div 2\<rparr>"

definition Piece_init :: "int \<Rightarrow> int \<Rightarrow> color \<Rightarrow> Piece" where
  "Piece_init r c clr = calc_pos \<lparr>row = r, col = c, color = clr, king = False, x = 0, y = 0\<rparr>"

definition make_king :: "Piece \<Rightarrow> Piece" where
  "make_king p = p\<lparr>king := True\<rparr>"

definition Piece_move :: "Piece \<Rightarrow> int \<Rightarrow> int \<Rightarrow> Piece" where
  "Piece_move p r c = calc_pos (p\<lparr>row := r, col := c\<rparr>)"

section \<open>Board\<close>

definition get_piece :: "Board \<Rightarrow> int \<Rightarrow> int \<Rightarrow> error + square" where
  "get_piece b r c = grid_get (board b) r c"

text \<open>
  \<open>Board.move(piece, row, col)\<close>. The right-hand side of the swap is read first
  (\<open>board[row][col]\<close>, then \<open>board[piece.row][piece.col]\<close>), then the two squares are
  written left to right. \<open>piece\<close> is whatever \<open>get_piece\<close> returned to the caller, so it
  may be \<open>0\<close>, on which \<open>piece.row\<close> raises.
\<close>

definition Board_move :: "heap \<Rightarrow> Board \<Rightarrow> square \<Rightarrow> int \<Rightarrow> int \<Rightarrow> error + heap \<times> Board" where
  "Board_move h b piece r c =
     (case grid_get (board b) r c of Inl e \<Rightarrow> Inl e
      | Inr there \<Rightarrow>
     (case piece of Empty \<Rightarrow> Inl AttributeError
      | Ref a \<Rightarrow>
     (case grid_get (board b) (row (h a)) (col (h a)) of Inl e \<Rightarrow> Inl e
      | Inr here \<Rightarrow>
     (case grid_set (board b) (row (h a)) (col (h a)) there of Inl e \<Rightarrow> Inl e
      | Inr g1 \<Rightarrow>
     (case grid_set g1 r c here of Inl e \<Rightarrow> Inl e
      | Inr g2 \<Rightarrow>
        (let h1 = h(a := Piece_move (h a) r c);
             b1 = b\<lparr>board := g2\<rparr>
         in if r = ROWS - 1 \<or> r = 0 then
              (if \<not> king (h1 a) then
                 (let h2 = h1(a := make_king (h1 a))
                  in if color (h2 a) = WHITE
                     then Inr (h2, b1\<lparr>white_kings := white_kings b1 + 1\<rparr>)
                     else Inr (h2, b1\<lparr>red_kings := red_kings b1 + 1\<rparr>))
               else Inr (h1, b1))
            else Inr (h1, b1)))))))"

text \<open>
  \<open>Board.create_board\<close>: the nested loops over \<open>range(ROWS)\<close> and \<open>range(COLS)\<close>. Each
  \<open>Piece(...)\<close> call allocates the next free address of the store.
\<close>

fun create_square :: "int \<Rightarrow> heap \<times> ref \<times> square list \<Rightarrow> int \<Rightarrow> heap \<times> ref \<times> square list" where
  "create_square r (h, n, rw) c =
     (if c mod 2 = (r + 1) mod 2 then
        (if r < 3 then (h(n := Piece_init r c WHITE), Suc n, rw @ [Ref n])
         else if r > 4 then (h(n := Piece_init r c RED), Suc n, rw @ [Ref n])
         else (h, n, rw @ [Empty]))
      else (h, n, rw @ [Empty]))"

fun create_row :: "heap \<times> ref \<times> square list list \<Rightarrow> int \<Rightarrow> heap \<times> ref \<times> square list list" where
  "create_row (h, n, g) r =
     (case foldl (create_square r) (h, n, []) [0 .. COLS - 1] of
        (h', n', rw) \<Rightarrow> (h', n', g @ [rw]))"

definition create_board :: "heap \<Rightarrow> ref \<Rightarrow> heap \<times> ref \<times> square list list" where
  "create_board h n = foldl create_row (h, n, []) [0 .. ROWS - 1]"

text \<open>
  \<open>Board()\<close>: the counters, then \<open>create_board\<close>. The store before the call is \<open>h\<close>;
  the new pieces take the addresses from \<open>n\<close> on.
\<close>

definition Board_init :: "heap \<Rightarrow> ref \<Rightarrow> heap \<times> ref \<times> Board" where
  "Board_init h n =
     (case create_board h n of
        (h', n', g) \<Rightarrow>
          (h', n', \<lparr>board = g, red_left = 12, white_left = 12, red_kings = 0, white_kings = 0\<rparr>))"

text \<open>
  \<open>Board.remove(pieces)\<close>. The list holds what the traversal read from the grid, so an
  element is a square; on \<open>0\<close> the read \<open>piece.row\<close> raises before the test
  \<open>piece != 0\<close> is reached.
\<close>

fun remove :: "heap \<Rightarrow> Board \<Rightarrow> square list \<Rightarrow> error + Board" where
  "remove h b [] = Inr b"
| "remove h b (piece # pieces) =
     (case piece of Empty \<Rightarrow> Inl AttributeError
      | Ref a \<Rightarrow>
     (case grid_set (board b) (row (h a)) (col (h a)) Empty of Inl e \<Rightarrow> Inl e
      | Inr g \<Rightarrow>
        (let b1 = b\<lparr>board := g\<rparr>
         in remove h
              (if piece \<noteq> Empty then
                 (if color (h a) = RED then b1\<lparr>red_left := red_left b1 - 1\<rparr>
                  else b1\<lparr>white_left := white_left b1 - 1\<rparr>)
               else b1)
              pieces)))"

definition Board_winner :: "Board \<Rightarrow> color option" where
  "Board_winner b =
     (if red_left b \<le> 0 then Some WHITE
      else if white_left b \<le> 0 then Some RED
      else None)"

section \<open>Move generation\<close>

text \<open>
  The distance the loop variable \<open>r\<close> can still travel: every iteration and every nested
  call moves \<open>r\<close> by \<open>step\<close>, and a nested call's \<open>stop\<close> is clipped to \<open>-1\<close> or \<open>ROWS\<close>.
\<close>

definition rows_ahead :: "int \<Rightarrow> int \<Rightarrow> int \<Rightarrow> nat" where
  "rows_ahead r stop step =
     (if step = - 1 then nat (r - min stop (- 1))
      else if step > 0 then nat (max stop ROWS - r)
      else nat (r - min stop ROWS))"

text \<open>
  \<open>r in range(start, stop, step)\<close> for the current value \<open>r\<close> of the loop variable.
\<close>

definition in_range :: "int \<Rightarrow> int \<Rightarrow> int \<Rightarrow> bool" where
  "in_range r stop step = (if step > 0 then r < stop else r > stop)"

text \<open>
  \<open>_traverse_left\<close> and \<open>_traverse_right\<close>. The \<open>for\<close> loop is the recursion on \<open>r\<close>;
  \<open>left\<close> (\<open>right\<close>) and \<open>last\<close> are its variables, \<open>moves\<close> is written only just
  before a \<open>break\<close>. The grid is read through \<open>lk\<close>, which is \<open>self.board[r][c]\<close>.
  A call of the Python function enters the loop with \<open>last = []\<close>.
\<close>

function traverse_left_loop ::
    "(int \<Rightarrow> int \<Rightarrow> error + square) \<Rightarrow> heap \<Rightarrow> int \<Rightarrow> int \<Rightarrow> int \<Rightarrow> color \<Rightarrow> int
      \<Rightarrow> square list \<Rightarrow> square list \<Rightarrow> error + moves"
  and traverse_right_loop ::
    "(int \<Rightarrow> int \<Rightarrow> error + square) \<Rightarrow> heap \<Rightarrow> int \<Rightarrow> int \<Rightarrow> int \<Rightarrow> color \<Rightarrow> int
      \<Rightarrow> square list \<Rightarrow> square list \<Rightarrow> error + moves"
where
  "traverse_left_loop lk h r stop step clr left skipped lst =
     (if step = 0 then Inl ValueError
      else if \<not> in_range r stop step then Inr Map.empty
      else if left < 0 then Inr Map.empty
      else
        (case lk r left of Inl e \<Rightarrow> Inl e
         | Inr Empty \<Rightarrow>
             (if skipped \<noteq> [] \<and> lst = [] then Inr Map.empty
              else
                (let mvs = [(r, left) \<mapsto> (if skipped \<noteq> [] then lst @ skipped else lst)]
                 in if lst \<noteq> [] then
                      (let rw = (if step = - 1 then max (r - 3) (- 1) else min (r + 3) ROWS)
                       in case traverse_left_loop lk h (r + step) rw step clr (left - 1) lst []
                          of Inl e \<Rightarrow> Inl e
                          | Inr m1 \<Rightarrow>
                         (case traverse_right_loop lk h (r + step) rw step clr (left + 1) lst []
                          of Inl e \<Rightarrow> Inl e
                          | Inr m2 \<Rightarrow> Inr ((mvs ++ m1) ++ m2)))
                    else Inr mvs))
         | Inr (Ref a) \<Rightarrow>
             (if color (h a) = clr then Inr Map.empty
              else traverse_left_loop lk h (r + step) stop step clr (left - 1) skipped [Ref a])))"
| "traverse_right_loop lk h r stop step clr right skipped lst =
     (if step = 0 then Inl ValueError
      else if \<not> in_range r stop step then Inr Map.empty
      else if right \<ge> COLS then Inr Map.empty
      else
        (case lk r right of Inl e \<Rightarrow> Inl e
         | Inr Empty \<Rightarrow>
             (if skipped \<noteq> [] \<and> lst = [] then Inr Map.empty
              else
                (let mvs = [(r, right) \<mapsto> (if skipped \<noteq> [] then lst @ skipped else lst)]
                 in if lst \<noteq> [] then
                      (let rw = (if step = - 1 then max (r - 3) (- 1) else min (r + 3) ROWS)
                       in case traverse_left_loop lk h (r + step) rw step clr (right - 1) lst []
                          of Inl e \<Rightarrow> Inl e
                          | Inr m1 \<Rightarrow>
                         (case traverse_right_loop lk h (r + step) rw step clr (right + 1) lst []
                          of Inl e \<Rightarrow> Inl e
                          | Inr m2 \<Rightarrow> Inr ((mvs ++ m1) ++ m2)))
                    else Inr mvs))
         | Inr (Ref a) \<Rightarrow>
             (if color (h a) = clr then Inr Map.empty
              else traverse_right_loop lk h (r + step) stop step clr (right + 1) skipped [Ref a])))"
  by pat_completeness auto
termination
  by (relation "measure (\<lambda>a. case a of
          Inl (lk, h, r, stop, step, clr, left, skipped, lst) \<Rightarrow> rows_ahead r stop step
        | Inr (lk, h, r, stop, step, clr, right, skipped, lst) \<Rightarrow> rows_ahead r stop step)")
     (auto simp: rows_ahead_def in_range_def ROWS_def split: if_splits)

declare traverse_left_loop.simps [simp del] traverse_right_loop.simps [simp del]


definition traverse_left ::
    "(int \<Rightarrow> int \<Rightarrow> error + square) \<Rightarrow> heap \<Rightarrow> int \<Rightarrow> int \<Rightarrow> int \<Rightarrow> color \<Rightarrow> int
      \<Rightarrow> square list \<Rightarrow> error + moves" where
  "traverse_left lk h start stop step clr left skipped =
     traverse_left_loop lk h start stop step clr left skipped []"

definition traverse_right ::
    "(int \<Rightarrow> int \<Rightarrow> error + square) \<Rightarrow> heap \<Rightarrow> int \<Rightarrow> int \<Rightarrow> int \<Rightarrow> color \<Rightarrow> int
      \<Rightarrow> square list \<Rightarrow> error + moves" where
  "traverse_right lk h start stop step clr right skipped =
     traverse_right_loop lk h start stop step clr right skipped []"

text \<open>
  \<open>Board.get_valid_moves(piece)\<close>, on a \<open>Piece\<close> object (the callers pass nothing else).
  \<open>moves.update(m)\<close> is \<open>moves ++ m\<close>: the later entry for a key wins.
\<close>

definition get_valid_moves ::
    "(int \<Rightarrow> int \<Rightarrow> error + square) \<Rightarrow> heap \<Rightarrow> ref \<Rightarrow> error + moves" where
  "get_valid_moves lk h a =
     (let piece = h a;
          left = col piece - 1;
          right = col piece + 1;
          r = row piece
      in case (if color piece = RED \<or> king piece then
                 (case traverse_left lk h (r - 1) (max (r - 3) (- 1)) (- 1) (color piece) left []
                  of Inl e \<Rightarrow> Inl e
                  | Inr m1 \<Rightarrow>
                 (case traverse_right lk h (r - 1) (max (r - 3) (- 1)) (- 1) (color piece) right []
                  of Inl e \<Rightarrow> Inl e
                  | Inr m2 \<Rightarrow> Inr ((Map.empty ++ m1) ++ m2)))
               else Inr Map.empty)
         of Inl e \<Rightarrow> Inl e
         | Inr mvs \<Rightarrow>
             (if color piece = WHITE \<or> king piece then
                (case traverse_left lk h (r + 1) (min (r + 3) ROWS) 1 (color piece) left []
                 of Inl e \<Rightarrow> Inl e
                 | Inr m3 \<Rightarrow>
                (case traverse_right lk h (r + 1) (min (r + 3) ROWS) 1 (color piece) right []
                 of Inl e \<Rightarrow> Inl e
                 | Inr m4 \<Rightarrow> Inr ((mvs ++ m3) ++ m4)))
              else Inr mvs))"

text \<open>The method as the program calls it: the grid is read with Python's indexing.\<close>

definition Board_get_valid_moves :: "heap \<Rightarrow> Board \<Rightarrow> ref \<Rightarrow> error + moves" where
  "Board_get_valid_moves h b a = get_valid_moves (get_piece b) h a"

text \<open>
  A reading of the grid that stops with an error at any index outside \<open>0..7\<close>, also at
  the negative indices Python would count from the end. The traversal run with it
  returns a mapping only if no lookup left the grid.
\<close>

definition get_piece_checked :: "Board \<Rightarrow> int \<Rightarrow> int \<Rightarrow> error + square" where
  "get_piece_checked b r c =
     (if 0 \<le> r \<and> r < ROWS \<and> 0 \<le> c \<and> c < COLS then get_piece b r c else Inl IndexError)"

section \<open>Game\<close>

definition Game_init :: "heap \<Rightarrow> heap \<times> Game" where
  "Game_init h =
     (case Board_init h 0 of
        (h', n', b) \<Rightarrow>
          (h', \<lparr>selected = None, game_board = b, turn = RED, valid_moves = Map.empty\<rparr>))"

definition Game_winner :: "Game \<Rightarrow> color option" where
  "Game_winner g = Board_winner (game_board g)"

definition change_turn :: "Game \<Rightarrow> Game" where
  "change_turn g =
     (let g1 = g\<lparr>valid_moves := Map.empty\<rparr>
      in if turn g1 = RED then g1\<lparr>turn := WHITE\<rparr> else g1\<lparr>turn := RED\<rparr>)"

text \<open>
  \<open>Game._move(row, col)\<close>: \<open>self.selected\<close> is \<open>None\<close> or a \<open>Piece\<close> (always truthy).
\<close>

definition Game_move :: "heap \<Rightarrow> Game \<Rightarrow> int \<Rightarrow> int \<Rightarrow> error + bool \<times> heap \<times> Game" where
  "Game_move h g r c =
     (case selected g of None \<Rightarrow> Inr (False, h, g)
      | Some s \<Rightarrow>
     (case valid_moves g (r, c) of None \<Rightarrow> Inr (False, h, g)
      | Some skipped \<Rightarrow>
     (case get_piece (game_board g) (row (h s)) (col (h s)) of Inl e \<Rightarrow> Inl e
      | Inr piece_to_move \<Rightarrow>
     (case Board_move h (game_board g) piece_to_move r c of Inl e \<Rightarrow> Inl e
      | Inr (h1, b1) \<Rightarrow>
     (case (if skipped \<noteq> [] then remove h1 b1 skipped else Inr b1) of Inl e \<Rightarrow> Inl e
      | Inr b2 \<Rightarrow> Inr (True, h1, change_turn (g\<lparr>game_board := b2\<rparr>)))))))"

text \<open>
  \<open>Game.select(row, col)\<close>. After a failed move the method calls itself with the
  selection cleared, drops that call's result, and goes on to its own tail.
\<close>

function select :: "heap \<Rightarrow> Game \<Rightarrow> int \<Rightarrow> int \<Rightarrow> error + bool \<times> heap \<times> Game" where
  "select h g r c =
     (case (if selected g \<noteq> None then
              (case Game_move h g r c of Inl e \<Rightarrow> Inl e
               | Inr (result, h1, g1) \<Rightarrow>
                   (if \<not> result then
                      (case select h1 (g1\<lparr>selected := None\<rparr>) r c of Inl e \<Rightarrow> Inl e
                       | Inr (result2, h2, g2) \<Rightarrow> Inr (h2, g2))
                    else Inr (h1, g1)))
            else Inr (h, g))
      of Inl e \<Rightarrow> Inl e
      | Inr (h3, g3) \<Rightarrow>
     (case get_piece (game_board g3) r c of Inl e \<Rightarrow> Inl e
      | Inr piece \<Rightarrow>
     (case piece of Empty \<Rightarrow> Inr (False, h3, g3)
      | Ref a \<Rightarrow>
          (if color (h3 a) = turn g3 then
             (case Board_get_valid_moves h3 (game_board g3) a of Inl e \<Rightarrow> Inl e
              | Inr m \<Rightarrow> Inr (True, h3, g3\<lparr>selected := Some a, valid_moves := m\<rparr>))
           else Inr (False, h3, g3)))))"
  by pat_completeness auto
termination
  by (relation "measure (\<lambda>(h, g, r, c). if selected g = None then 0 else 1)") auto

declare select.simps [simp del]


section \<open>Well-formed boards and example positions\<close>

definition on_grid :: "int \<Rightarrow> int \<Rightarrow> bool" where
  "on_grid r c = (0 \<le> r \<and> r < ROWS \<and> 0 \<le> c \<and> c < COLS)"

definition valid_grid :: "square list list \<Rightarrow> bool" where
  "valid_grid g = (length g = nat ROWS \<and> list_all (\<lambda>rw. length rw = nat COLS) g)"

text \<open>
  The row a colour's men travel to, in the spec's words: row 7 for the colour that
  advances toward increasing rows (WHITE, searched with step 1), row 0 for the other.
\<close>

definition spec_farthest_row :: "color \<Rightarrow> int" where
  "spec_farthest_row clr = (if clr = WHITE then ROWS - 1 else 0)"

text \<open>A store whose content is never read: the pieces of a position overwrite it.\<close>

definition heap0 :: heap where
  "heap0 = (\<lambda>a. Piece_init 0 0 WHITE)"

definition empty_row :: "square list" where
  "empty_row = replicate 8 Empty"

text \<open>
  The double-jump position: a WHITE man (address 0) at (2,1), RED men at (3,2)
  (address 1) and (5,4) (address 2), every other square empty.
\<close>

definition double_jump_grid :: "square list list" where
  "double_jump_grid =
     [empty_row, empty_row, empty_row[1 := Ref 0], empty_row[2 := Ref 1],
      empty_row, empty_row[4 := Ref 2], empty_row, empty_row]"

definition double_jump_heap :: heap where
  "double_jump_heap =
     heap0(0 := Piece_init 2 1 WHITE, 1 := Piece_init 3 2 RED, 2 := Piece_init 5 4 RED)"

definition double_jump_board :: Board where
  "double_jump_board =
     \<lparr>board = double_jump_grid, red_left = 2, white_left = 1, red_kings = 0, white_kings = 0\<rparr>"

text \<open>
  The same position, and a RED piece object (address 3) with coordinates (4,3) that is
  not on the board: the square (4,3) is empty.
\<close>

definition stale_heap :: heap where
  "stale_heap = double_jump_heap(3 := Piece_init 4 3 RED)"

text \<open>
  Properties of an element of a captured list: it is a piece object with on-grid
  coordinates; it has a given colour; its coordinates are a given square; and what the
  grid holds at its coordinates.
\<close>

definition piece_on_grid :: "heap \<Rightarrow> square \<Rightarrow> bool" where
  "piece_on_grid h p = (case p of Empty \<Rightarrow> False | Ref a \<Rightarrow> on_grid (row (h a)) (col (h a)))"

definition has_color :: "heap \<Rightarrow> color \<Rightarrow> square \<Rightarrow> bool" where
  "has_color h clr p = (case p of Empty \<Rightarrow> False | Ref a \<Rightarrow> color (h a) = clr)"

definition stands_at :: "heap \<Rightarrow> int \<Rightarrow> int \<Rightarrow> square \<Rightarrow> bool" where
  "stands_at h r c p = (case p of Empty \<Rightarrow> False | Ref a \<Rightarrow> row (h a) = r \<and> col (h a) = c)"

definition square_of :: "heap \<Rightarrow> Board \<Rightarrow> square \<Rightarrow> error + square" where
  "square_of h b p =
     (case p of Empty \<Rightarrow> Inl AttributeError | Ref a \<Rightarrow> get_piece b (row (h a)) (col (h a)))"

text \<open>
  Bounds under which a probe stays on the grid: the program only uses the steps 1 and
  -1, starts a downward probe at a row from 0 on with \<open>stop\<close> at most \<open>ROWS\<close>, and an
  upward probe at a row below \<open>ROWS\<close> with \<open>stop\<close> at least -1.
\<close>

definition probe_ok :: "int \<Rightarrow> int \<Rightarrow> int \<Rightarrow> bool" where
  "probe_ok r stop step =
     (step = 1 \<and> 0 \<le> r \<and> stop \<le> ROWS \<or> step = - 1 \<and> r < ROWS \<and> - 1 \<le> stop)"

text \<open>Two readings of the grid that succeed, with the same square, everywhere on the grid.\<close>

definition agree_on_grid :: "(int \<Rightarrow> int \<Rightarrow> error + square) \<Rightarrow> (int \<Rightarrow> int \<Rightarrow> error + square) \<Rightarrow> bool" where
  "agree_on_grid lk lk' = (\<forall>r c. on_grid r c \<longrightarrow> (\<exists>s. lk r c = Inr s \<and> lk' r c = Inr s))"

text \<open>
  Every destination of a mapping is an on-grid square that reads as empty, and all
  destinations have the parity \<open>e\<close> of row + column.
\<close>

definition keys_ok :: "(int \<Rightarrow> int \<Rightarrow> error + square) \<Rightarrow> bool \<Rightarrow> moves \<Rightarrow> bool" where
  "keys_ok lk e m =
     (\<forall>k \<in> dom m. on_grid (fst k) (snd k) \<and> lk (fst k) (snd k) = Inr Empty
                   \<and> even (fst k + snd k) = e)"

text \<open>
  A piece with no move by the rules: each of its four diagonal neighbours is off the
  grid or holds a piece of its own colour.
\<close>

definition own_or_off :: "heap \<Rightarrow> Board \<Rightarrow> color \<Rightarrow> int \<Rightarrow> int \<Rightarrow> bool" where
  "own_or_off h b clr r c =
     (\<not> on_grid r c \<or>
      (case get_piece b r c of Inl e \<Rightarrow> False | Inr Empty \<Rightarrow> False | Inr (Ref a) \<Rightarrow> color (h a) = clr))"

definition hemmed_in :: "heap \<Rightarrow> Board \<Rightarrow> ref \<Rightarrow> bool" where
  "hemmed_in h b a =
     (own_or_off h b (color (h a)) (row (h a) - 1) (col (h a) - 1)
      \<and> own_or_off h b (color (h a)) (row (h a) - 1) (col (h a) + 1)
      \<and> own_or_off h b (color (h a)) (row (h a) + 1) (col (h a) - 1)
      \<and> own_or_off h b (color (h a)) (row (h a) + 1) (col (h a) + 1))"

text \<open>The start of a game: \<open>Game._init\<close> run on the store \<open>heap0\<close>.\<close>

definition start_heap :: heap where
  "start_heap = fst (Game_init heap0)"

definition start_game :: Game where
  "start_game = snd (Game_init heap0)"

text \<open>The colour \<open>change_turn\<close> hands the turn to.\<close>

definition other :: "color \<Rightarrow> color" where
  "other clr = (if clr = RED then WHITE else RED)"

text \<open>
  What the program relies on when it applies an offered move for the selected piece
  \<open>s\<close> with captured list \<open>sk\<close>: the grid is well-formed, the selected piece stands on
  the board at its own coordinates, the destination is an empty on-grid square, and the
  captured elements are piece objects with on-grid coordinates, other than \<open>s\<close> and not
  on the destination.
\<close>

definition move_ready :: "heap \<Rightarrow> Game \<Rightarrow> ref \<Rightarrow> int \<Rightarrow> int \<Rightarrow> square list \<Rightarrow> bool" where
  "move_ready h g s r c sk =
     (valid_grid (board (game_board g)) \<and> on_grid r c
      \<and> on_grid (row (h s)) (col (h s))
      \<and> get_piece (game_board g) (row (h s)) (col (h s)) = Inr (Ref s)
      \<and> get_piece (game_board g) r c = Inr Empty
      \<and> list_all (\<lambda>p. piece_on_grid h p \<and> p \<noteq> Ref s \<and> \<not> stands_at h r c p) sk)"

text \<open>The same, for whatever is selected and offered at \<open>(r, c)\<close>, if anything.\<close>

definition offered_move_ok :: "heap \<Rightarrow> Game \<Rightarrow> int \<Rightarrow> int \<Rightarrow> bool" where
  "offered_move_ok h g r c =
     (case selected g of None \<Rightarrow> True
      | Some s \<Rightarrow> (case valid_moves g (r, c) of None \<Rightarrow> True
                    | Some sk \<Rightarrow> move_ready h g s r c sk))"

text \<open>The game after its first click, on the RED man at (5,0).\<close>

definition opening_heap :: heap where
  "opening_heap = fst (snd (projr (select start_heap start_game 5 0)))"

definition opening_game :: Game where
  "opening_game = snd (snd (projr (select start_heap start_game 5 0)))"

text \<open>
  The playable-square invariant. A board is dark when its grid is well-formed and every
  piece on it stands on a square with odd row + column, with its own coordinates those
  of the square. A game is dark when its board is and, while something is selected,
  every offered destination is an empty on-grid square with odd row + column.
\<close>

definition dark_square :: "heap \<Rightarrow> Board \<Rightarrow> int \<Rightarrow> int \<Rightarrow> bool" where
  "dark_square h b r c =
     (case board b ! nat r ! nat c of Empty \<Rightarrow> True
      | Ref a \<Rightarrow> row (h a) = r \<and> col (h a) = c \<and> odd (r + c))"

definition dark_board :: "heap \<Rightarrow> Board \<Rightarrow> bool" where
  "dark_board h b =
     (valid_grid (board b)
      \<and> list_all (\<lambda>r. list_all (\<lambda>c. dark_square h b r c) [0 .. COLS - 1]) [0 .. ROWS - 1])"

definition dark_game :: "heap \<Rightarrow> Game \<Rightarrow> bool" where
  "dark_game h g =
     (dark_board h (game_board g)
      \<and> (selected g \<noteq> None \<longrightarrow> keys_ok (get_piece (game_board g)) False (valid_moves g)))"

text \<open>
  The game states a sequence of clicks can reach: \<open>Game()\<close> on any store, then any number
  of \<open>select(row, col)\<close> calls that return.
\<close>

inductive reachable :: "heap \<Rightarrow> Game \<Rightarrow> bool" where
  start: "Game_init h0 = (h, g) \<Longrightarrow> reachable h g"
| click: "reachable h g \<Longrightarrow> select h g r c = Inr (res, h', g') \<Longrightarrow> reachable h' g'"

text \<open>The game after the opening move: the second click, on (4,1).\<close>

definition moved_heap :: heap where
  "moved_heap = fst (snd (projr (select opening_heap opening_game 4 1)))"

definition moved_game :: Game where
  "moved_game = snd (snd (projr (select opening_heap opening_game 4 1)))"

text \<open>
  What a captured list holds: piece objects of the other colour than \<open>clr\<close>, each read
  from an on-grid square. And the offers of a game: whenever a piece is selected, every
  offered move of the mapping is applicable and the selected piece has the turn's colour.
\<close>

definition enemy_on_grid :: "(int \<Rightarrow> int \<Rightarrow> error + square) \<Rightarrow> heap \<Rightarrow> color \<Rightarrow> square \<Rightarrow> bool" where
  "enemy_on_grid lk h clr p =
     (\<exists>a r c. p = Ref a \<and> color (h a) \<noteq> clr \<and> on_grid r c \<and> lk r c = Inr (Ref a))"

definition caps_ok :: "(int \<Rightarrow> int \<Rightarrow> error + square) \<Rightarrow> heap \<Rightarrow> color \<Rightarrow> moves \<Rightarrow> bool" where
  "caps_ok lk h clr m = (\<forall>k v. m k = Some v \<longrightarrow> list_all (enemy_on_grid lk h clr) v)"

definition offers_ready :: "heap \<Rightarrow> Game \<Rightarrow> bool" where
  "offers_ready h g =
     (\<forall>s k sk. selected g = Some s \<and> valid_moves g k = Some sk
         \<longrightarrow> move_ready h g s (fst k) (snd k) sk \<and> color (h s) = turn g)"

section \<open>Reading and writing a well-formed grid\<close>

lemma py_pos_inside: "0 \<le> i \<Longrightarrow> i < int (length xs) \<Longrightarrow> py_pos xs i = Inr (nat i)"
  by (simp add: py_pos_def)

lemma valid_grid_row: "valid_grid g \<Longrightarrow> 0 \<le> r \<Longrightarrow> r < ROWS \<Longrightarrow> length (g ! nat r) = nat COLS"
  by (simp add: valid_grid_def list_all_length ROWS_def)

lemma grid_get_on:
  "valid_grid g \<Longrightarrow> on_grid r c \<Longrightarrow> grid_get g r c = Inr (g ! nat r ! nat c)"
  using valid_grid_row [of g r]
  by (simp add: grid_get_def py_index_def py_pos_inside on_grid_def valid_grid_def)

lemma grid_set_on:
  "valid_grid g \<Longrightarrow> on_grid r c \<Longrightarrow>
     grid_set g r c v = Inr (g[nat r := (g ! nat r)[nat c := v]])"
  using valid_grid_row [of g r]
  by (simp add: grid_set_def py_index_def py_setitem_def py_pos_inside on_grid_def valid_grid_def)

lemma valid_grid_update:
  "valid_grid g \<Longrightarrow> valid_grid (g[i := (g ! i)[j := v]])"
  by (cases "i < length g") (auto simp: valid_grid_def list_all_length nth_list_update)

lemma grid_update_nth:
  "valid_grid g \<Longrightarrow> on_grid r c \<Longrightarrow> on_grid r' c' \<Longrightarrow>
     g[nat r := (g ! nat r)[nat c := v]] ! nat r' ! nat c' =
       (if r' = r \<and> c' = c then v else g ! nat r' ! nat c')"
  using valid_grid_row [of g r]
  by (auto simp: on_grid_def valid_grid_def nth_list_update)


section \<open>Board.winner\<close>

text \<open>
  Claim C9. \<open>Board.winner\<close> tests RED's count first: with \<open>red_left\<close> at or below zero the
  winner is WHITE, whatever \<open>white_left\<close> is; RED wins only when \<open>white_left\<close> is at or
  below zero while \<open>red_left\<close> is still positive; there is no winner exactly when both
  counts are positive. The comparisons are \<open>\<le> 0\<close>.
\<close>

theorem winner_checks_red_first:
  "(red_left b \<le> 0 \<longrightarrow> Board_winner b = Some WHITE)
   \<and> (Board_winner b = Some RED \<longleftrightarrow> white_left b \<le> 0 \<and> 0 < red_left b)
   \<and> (Board_winner b = None \<longleftrightarrow> 0 < red_left b \<and> 0 < white_left b)"
  by (simp add: Board_winner_def)

text \<open>Both counts at or below zero, RED's negative: WHITE is returned.\<close>

theorem winner_checks_red_first_witness:
  "red_left (double_jump_board\<lparr>red_left := - 1, white_left := 0\<rparr>) \<le> 0
   \<and> Board_winner (double_jump_board\<lparr>red_left := - 1, white_left := 0\<rparr>) = Some WHITE"
  using winner_checks_red_first [of "double_jump_board\<lparr>red_left := - 1, white_left := 0\<rparr>"]
  by simp

section \<open>The double-jump scenario\<close>

lemma double_jump_eval:
  "\<exists>m. Board_get_valid_moves double_jump_heap double_jump_board 0 = Inr m
     \<and> m = [(3, 0) \<mapsto> [], (4, 3) \<mapsto> [Ref 1], (6, 5) \<mapsto> [Ref 2, Ref 1]]"
  by (simp add: Board_get_valid_moves_def get_valid_moves_def traverse_left_def
      traverse_right_def double_jump_heap_def double_jump_board_def double_jump_grid_def
      empty_row_def heap0_def Piece_init_def calc_pos_def ROWS_def COLS_def in_range_def
      get_piece_def grid_get_def py_index_def py_pos_def
      traverse_left_loop.simps traverse_right_loop.simps)

text \<open>
  Claim C1, as the code has it. On the double-jump position \<open>get_valid_moves\<close> for the
  WHITE man at (2,1) returns the destination (6,5) with both RED men captured (the one
  at (5,4) first, then the one at (3,2)), and it also returns the first landing square
  (4,3) as a destination, capturing the man at (3,2) alone: the traversal records a
  landing square before it looks for a further jump. The only other destination is the
  simple step to (3,0).
\<close>

theorem double_jump_moves:
  "\<exists>m. Board_get_valid_moves double_jump_heap double_jump_board 0 = Inr m
     \<and> m (6, 5) = Some [Ref 2, Ref 1]
     \<and> m (4, 3) = Some [Ref 1]
     \<and> m (3, 0) = Some []
     \<and> dom m = {(3, 0), (4, 3), (6, 5)}"
  using double_jump_eval by auto

text \<open>
  The claim as stated fails there: (4,3) is a key of the returned mapping.
\<close>

theorem double_jump_keeps_first_landing:
  "\<not> isl (Board_get_valid_moves double_jump_heap double_jump_board 0)
   \<and> projr (Board_get_valid_moves double_jump_heap double_jump_board 0) (4, 3) = Some [Ref 1]"
  by code_simp

section \<open>Board.move and promotion\<close>

text \<open>
  Claim C2, as the code has it. \<open>Board.move\<close> of a piece object to an on-grid square of a
  well-formed board returns; afterwards the piece is a king exactly if it was one before
  or the destination row is 0 or 7, whatever its colour (the test names both edge rows
  and no colour); its colour is kept and its coordinates are the destination. Where the
  destination lies ahead of the piece in its colour's direction of travel, the edge row
  reached is the farthest row for that colour. A piece that is a king stays one. The
  method has no argument that tells a capture from a simple step.
\<close>

theorem Board_move_crowns_on_edge_rows:
  assumes "valid_grid (board b)" and "on_grid (row (h a)) (col (h a))" and "on_grid r c"
  shows "\<exists>h' b'. Board_move h b (Ref a) r c = Inr (h', b')
           \<and> (king (h' a) \<longleftrightarrow> king (h a) \<or> r = 0 \<or> r = ROWS - 1)
           \<and> color (h' a) = color (h a) \<and> row (h' a) = r \<and> col (h' a) = c
           \<and> ((color (h a) = WHITE \<and> row (h a) < r \<or> color (h a) = RED \<and> r < row (h a))
                \<longrightarrow> (r = 0 \<or> r = ROWS - 1) = (r = spec_farthest_row (color (h a))))"
proof -
  have g1: "valid_grid ((board b)[nat (row (h a)) :=
              (board b ! nat (row (h a)))[nat (col (h a)) := v]])" for v
    using assms(1) by (rule valid_grid_update)
  have far: "(color (h a) = WHITE \<and> row (h a) < r \<or> color (h a) = RED \<and> r < row (h a))
                \<longrightarrow> (r = 0 \<or> r = ROWS - 1) = (r = spec_farthest_row (color (h a)))"
    using assms(2,3) by (auto simp: on_grid_def spec_farthest_row_def ROWS_def)
  show ?thesis
    using far
    by (simp add: Board_move_def grid_get_on [OF assms(1)] grid_set_on [OF assms(1)]
        grid_set_on [OF g1] assms(2,3) Let_def Piece_move_def calc_pos_def make_king_def)
qed

text \<open>The WHITE man of the double-jump position, moved ahead to row 7, is crowned.\<close>

theorem Board_move_crowns_on_edge_rows_witness:
  "valid_grid (board double_jump_board)
   \<and> on_grid (row (double_jump_heap 0)) (col (double_jump_heap 0))
   \<and> on_grid 7 2
   \<and> color (double_jump_heap 0) = WHITE \<and> row (double_jump_heap 0) < 7
   \<and> spec_farthest_row (color (double_jump_heap 0)) = 7
   \<and> (\<exists>h' b'. Board_move double_jump_heap double_jump_board (Ref 0) 7 2 = Inr (h', b')
         \<and> king (h' 0))"
proof -
  have 1: "valid_grid (board double_jump_board)" by code_simp
  have 2: "on_grid (row (double_jump_heap 0)) (col (double_jump_heap 0))" by code_simp
  have 3: "on_grid 7 2" by code_simp
  have 4: "color (double_jump_heap 0) = WHITE \<and> row (double_jump_heap 0) < 7
     \<and> spec_farthest_row (color (double_jump_heap 0)) = 7" by code_simp
  show ?thesis
    using 1 2 3 4 Board_move_crowns_on_edge_rows [of double_jump_board double_jump_heap 0 7 2]
    by (auto simp: ROWS_def)
qed

text \<open>
  The claim as stated fails for a RED man moved to row 7: it is crowned, and row 7 is
  not the farthest row for RED.
\<close>

theorem red_man_crowned_on_row_7:
  "\<not> isl (Board_move double_jump_heap double_jump_board (Ref 2) 7 4)
   \<and> king (fst (projr (Board_move double_jump_heap double_jump_board (Ref 2) 7 4)) 2)
   \<and> \<not> king (double_jump_heap 2)
   \<and> color (double_jump_heap 2) = RED
   \<and> spec_farthest_row RED \<noteq> 7"
  by code_simp

section \<open>Board.remove\<close>

lemma has_color_Ref: "has_color h clr (Ref a) = (color (h a) = clr)"
  by (simp add: has_color_def)

lemma stands_at_Ref: "stands_at h r c (Ref a) = (row (h a) = r \<and> col (h a) = c)"
  by (simp add: stands_at_def)

lemma remove_step:
  assumes "valid_grid (board b)" and "on_grid (row (h a)) (col (h a))"
  shows "remove h b (Ref a # ps) =
           remove h ((if color (h a) = RED
            then b\<lparr>board := (board b)[nat (row (h a)) := (board b ! nat (row (h a)))[nat (col (h a)) := Empty]],
                   red_left := red_left b - 1\<rparr>
            else b\<lparr>board := (board b)[nat (row (h a)) := (board b ! nat (row (h a)))[nat (col (h a)) := Empty]],
                   white_left := white_left b - 1\<rparr>)) ps"
  using assms by (simp add: grid_set_on Let_def)

lemma remove_effect:
  assumes "valid_grid (board b)" and "list_all (piece_on_grid h) ps"
  shows "\<exists>b'. remove h b ps = Inr b'
          \<and> valid_grid (board b')
          \<and> red_left b' = red_left b - int (length (filter (has_color h RED) ps))
          \<and> white_left b' = white_left b - int (length (filter (has_color h WHITE) ps))
          \<and> red_kings b' = red_kings b \<and> white_kings b' = white_kings b
          \<and> (\<forall>r c. on_grid r c \<longrightarrow> board b' ! nat r ! nat c =
                (if list_ex (stands_at h r c) ps then Empty else board b ! nat r ! nat c))"
  using assms
proof (induction ps arbitrary: b)
  case Nil
  then show ?case by simp
next
  case (Cons p ps)
  from Cons.prems(2) have hd: "piece_on_grid h p" and rest: "list_all (piece_on_grid h) ps"
    by simp_all
  from hd obtain a where p: "p = Ref a" and og: "on_grid (row (h a)) (col (h a))"
    by (cases p) (auto simp: piece_on_grid_def)
  let ?b1 = "(if color (h a) = RED
            then b\<lparr>board := (board b)[nat (row (h a)) := (board b ! nat (row (h a)))[nat (col (h a)) := Empty]],
                   red_left := red_left b - 1\<rparr>
            else b\<lparr>board := (board b)[nat (row (h a)) := (board b ! nat (row (h a)))[nat (col (h a)) := Empty]],
                   white_left := white_left b - 1\<rparr>)"
  have v1: "valid_grid (board ?b1)"
    using valid_grid_update [OF Cons.prems(1)] by simp
  have step: "remove h b (p # ps) = remove h ?b1 ps"
    unfolding p using Cons.prems(1) og by (rule remove_step)
  from Cons.IH [OF v1 rest] obtain b' where b': "remove h ?b1 ps = Inr b'"
     "valid_grid (board b')"
     "red_left b' = red_left ?b1 - int (length (filter (has_color h RED) ps))"
     "white_left b' = white_left ?b1 - int (length (filter (has_color h WHITE) ps))"
     "red_kings b' = red_kings ?b1" "white_kings b' = white_kings ?b1"
     "\<forall>r c. on_grid r c \<longrightarrow> board b' ! nat r ! nat c =
                (if list_ex (stands_at h r c) ps then Empty else board ?b1 ! nat r ! nat c)"
    by blast
  have grid: "board b' ! nat r ! nat c =
                (if list_ex (stands_at h r c) (p # ps) then Empty else board b ! nat r ! nat c)"
    if "on_grid r c" for r c
    using b'(7) that grid_update_nth [OF Cons.prems(1) og that, of Empty]
    by (auto simp: p stands_at_Ref)
  have cl: "color (h a) = RED \<or> color (h a) = WHITE"
    by (cases "color (h a)") auto
  show ?case
    using step b'(1-6) grid cl by (auto simp: p has_color_Ref simp del: remove.simps)
qed


text \<open>
  Claim C3, as the code has it. \<open>Board.remove(pieces)\<close> on piece objects with on-grid
  coordinates raises nothing. For every element of the list it empties the square at
  that piece's coordinates and takes one off the count of that piece's colour, whether
  or not the square held the piece: the grid is not consulted, and the test
  \<open>piece != 0\<close> is true of every piece object. So removing an absent piece is not a
  no-op: it lowers the count all the same.
\<close>

theorem remove_counts_every_listed_piece:
  assumes "valid_grid (board b)" and "list_all (piece_on_grid h) pieces"
  shows "\<exists>b'. remove h b pieces = Inr b'
          \<and> red_left b' = red_left b - int (length (filter (has_color h RED) pieces))
          \<and> white_left b' = white_left b - int (length (filter (has_color h WHITE) pieces))
          \<and> list_all (\<lambda>p. square_of h b' p = Inr Empty) pieces"
proof -
  from remove_effect [OF assms] obtain b' where b': "remove h b pieces = Inr b'"
     "valid_grid (board b')"
     "red_left b' = red_left b - int (length (filter (has_color h RED) pieces))"
     "white_left b' = white_left b - int (length (filter (has_color h WHITE) pieces))"
     and grid: "\<forall>r c. on_grid r c \<longrightarrow> board b' ! nat r ! nat c =
                (if list_ex (stands_at h r c) pieces then Empty else board b ! nat r ! nat c)"
    by blast
  have "square_of h b' p = Inr Empty" if "p \<in> set pieces" for p
  proof -
    from that assms(2) have "piece_on_grid h p" by (simp add: list_all_iff)
    then obtain a where p: "p = Ref a" and og: "on_grid (row (h a)) (col (h a))"
      by (cases p) (auto simp: piece_on_grid_def)
    have "list_ex (stands_at h (row (h a)) (col (h a))) pieces"
      unfolding list_ex_iff using that stands_at_Ref [of h "row (h a)" "col (h a)" a]
      by (auto simp: p)
    with grid og have "board b' ! nat (row (h a)) ! nat (col (h a)) = Empty" by simp
    then show ?thesis
      by (simp add: p square_of_def get_piece_def grid_get_on [OF b'(2) og])
  qed
  then have "list_all (\<lambda>p. square_of h b' p = Inr Empty) pieces"
    by (simp add: list_all_iff)
  with b' show ?thesis by blast
qed

text \<open>A RED piece object that is not on the board: its removal lowers \<open>red_left\<close>.\<close>

theorem remove_counts_every_listed_piece_witness:
  "valid_grid (board double_jump_board) \<and> list_all (piece_on_grid stale_heap) [Ref 3]
   \<and> get_piece double_jump_board 4 3 = Inr Empty
   \<and> (\<exists>b'. remove stale_heap double_jump_board [Ref 3] = Inr b'
         \<and> red_left b' = red_left double_jump_board - 1)"
proof -
  have 1: "valid_grid (board double_jump_board)" by code_simp
  have 2: "list_all (piece_on_grid stale_heap) [Ref 3]" by code_simp
  have 3: "get_piece double_jump_board 4 3 = Inr Empty" by code_simp
  have 4: "filter (has_color stale_heap RED) [Ref 3] = [Ref 3]" by code_simp
  show ?thesis
    using 1 2 3 4 remove_counts_every_listed_piece [of double_jump_board stale_heap "[Ref 3]"]
    by (auto simp del: remove.simps)
qed

text \<open>
  The claim as stated fails there: the square at the piece's coordinates is empty
  before the call, and \<open>red_left\<close> goes from 2 to 1.
\<close>

theorem remove_of_absent_piece_decrements:
  "square_of stale_heap double_jump_board (Ref 3) = Inr Empty
   \<and> \<not> isl (remove stale_heap double_jump_board [Ref 3])
   \<and> red_left double_jump_board = 2
   \<and> red_left (projr (remove stale_heap double_jump_board [Ref 3])) = 1"
  by code_simp

section \<open>Move generation is total and stays on the grid\<close>

lemma keys_ok_empty: "keys_ok lk e Map.empty"
  by (simp add: keys_ok_def)

lemma keys_ok_add: "keys_ok lk e m \<Longrightarrow> keys_ok lk e m' \<Longrightarrow> keys_ok lk e (m ++ m')"
  by (auto simp: keys_ok_def)

lemma keys_ok_single:
  "on_grid r c \<Longrightarrow> lk r c = Inr Empty \<Longrightarrow> keys_ok lk (even (r + c)) [(r, c) \<mapsto> v]"
  by (simp add: keys_ok_def)

lemma probe_ok_even:
  "probe_ok r stop step \<Longrightarrow> even (r + step + (c - 1)) = even (r + c)"
  "probe_ok r stop step \<Longrightarrow> even (r + step + (c + 1)) = even (r + c)"
  by (auto simp: probe_ok_def)

lemma probe_ok_next: "probe_ok r stop step \<Longrightarrow> probe_ok (r + step) stop step"
  by (auto simp: probe_ok_def)

lemma probe_ok_jump:
  "probe_ok r stop step \<Longrightarrow>
     probe_ok (r + step) (if step = - 1 then max (r - 3) (- 1) else min (r + 3) ROWS) step"
  by (auto simp: probe_ok_def)

lemma probe_ok_row: "probe_ok r stop step \<Longrightarrow> in_range r stop step \<Longrightarrow> 0 \<le> r \<and> r < ROWS"
  by (auto simp: probe_ok_def in_range_def)

lemma probe_ok_step: "probe_ok r stop step \<Longrightarrow> step \<noteq> 0"
  by (auto simp: probe_ok_def)

lemma traverse_total:
  fixes lk' :: "int \<Rightarrow> int \<Rightarrow> error + square"
  shows "agree_on_grid lk lk' \<Longrightarrow> probe_ok r stop step \<Longrightarrow> left < COLS \<Longrightarrow>
           (\<exists>m. traverse_left_loop lk h r stop step clr left skipped lst = Inr m
               \<and> traverse_left_loop lk' h r stop step clr left skipped lst = Inr m
               \<and> keys_ok lk (even (r + left)) m)"
    and "agree_on_grid lk lk' \<Longrightarrow> probe_ok r stop step \<Longrightarrow> 0 \<le> right \<Longrightarrow>
           (\<exists>m. traverse_right_loop lk h r stop step clr right skipped lst = Inr m
               \<and> traverse_right_loop lk' h r stop step clr right skipped lst = Inr m
               \<and> keys_ok lk (even (r + right)) m)"
proof (induction lk h r stop step clr left skipped lst and lk h r stop step clr right skipped lst
       rule: traverse_left_loop_traverse_right_loop.induct)
  case (1 lk h r stop step clr left skipped lst)
  note nz = probe_ok_step [OF "1.prems"(2)]
  note pj = probe_ok_jump [OF "1.prems"(2)]
  note pn = probe_ok_next [OF "1.prems"(2)]
  note ev = probe_ok_even [OF "1.prems"(2), of left]
  show ?case
  proof (cases "in_range r stop step \<and> 0 \<le> left")
    case False
    then show ?thesis
      using nz by (auto simp: traverse_left_loop.simps [of _ _ r] keys_ok_empty)
  next
    case inside: True
    then have og: "on_grid r left"
      using probe_ok_row [OF "1.prems"(2)] "1.prems"(3) by (simp add: on_grid_def)
    with "1.prems"(1) obtain s where s: "lk r left = Inr s" "lk' r left = Inr s"
      by (auto simp: agree_on_grid_def)
    have cm: "left - 1 < COLS" and cp: "0 \<le> left + 1"
      using "1.prems"(3) inside by auto
    have ir: "\<not> \<not> in_range r stop step" and gd: "\<not> left < 0"
      using inside by auto
    show ?thesis
    proof (cases s)
      case Empty
      show ?thesis
      proof (cases "skipped \<noteq> [] \<and> lst = []")
        case True
        then show ?thesis
          using nz inside s Empty by (simp add: traverse_left_loop.simps [of _ _ r] keys_ok_empty)
      next
        case rec: False
        have one: "keys_ok lk (even (r + left)) [(r, left) \<mapsto> v]" for v
          using og s(1) [unfolded Empty] by (rule keys_ok_single)
        show ?thesis
        proof (cases "lst = []")
          case True
          then show ?thesis
            using nz inside s Empty rec one by (simp add: traverse_left_loop.simps [of _ _ r])
        next
          case jump: False
          from "1.IH"(1) [OF nz ir gd s(1) Empty rec refl jump refl "1.prems"(1) pj cm, unfolded ev]
          obtain m1 where m1:
            "traverse_left_loop lk h (r + step)
               (if step = - 1 then max (r - 3) (- 1) else min (r + 3) ROWS) step clr (left - 1) lst []
             = Inr m1"
            "traverse_left_loop lk' h (r + step)
               (if step = - 1 then max (r - 3) (- 1) else min (r + 3) ROWS) step clr (left - 1) lst []
             = Inr m1"
            "keys_ok lk (even (r + left)) m1"
            by blast
          from "1.IH"(2) [OF nz ir gd s(1) Empty rec refl jump refl m1(1) "1.prems"(1) pj cp, unfolded ev]
          obtain m2 where m2:
            "traverse_right_loop lk h (r + step)
               (if step = - 1 then max (r - 3) (- 1) else min (r + 3) ROWS) step clr (left + 1) lst []
             = Inr m2"
            "traverse_right_loop lk' h (r + step)
               (if step = - 1 then max (r - 3) (- 1) else min (r + 3) ROWS) step clr (left + 1) lst []
             = Inr m2"
            "keys_ok lk (even (r + left)) m2"
            by blast
          show ?thesis
            using nz inside s Empty rec jump m1 m2 one
            by (simp add: traverse_left_loop.simps [of _ _ r] Let_def keys_ok_add)
        qed
      qed
    next
      case (Ref a)
      show ?thesis
      proof (cases "color (h a) = clr")
        case True
        then show ?thesis
          using nz inside s Ref by (simp add: traverse_left_loop.simps [of _ _ r] keys_ok_empty)
      next
        case enemy: False
        from "1.IH"(3) [OF nz ir gd s(1) Ref enemy "1.prems"(1) pn cm, unfolded ev]
        obtain m where m:
          "traverse_left_loop lk h (r + step) stop step clr (left - 1) skipped [Ref a] = Inr m"
          "traverse_left_loop lk' h (r + step) stop step clr (left - 1) skipped [Ref a] = Inr m"
          "keys_ok lk (even (r + left)) m"
          by blast
        show ?thesis
          using nz inside s Ref enemy m by (simp add: traverse_left_loop.simps [of _ _ r])
      qed
    qed
  qed
next
  case (2 lk h r stop step clr right skipped lst)
  note nz = probe_ok_step [OF "2.prems"(2)]
  note pj = probe_ok_jump [OF "2.prems"(2)]
  note pn = probe_ok_next [OF "2.prems"(2)]
  note ev = probe_ok_even [OF "2.prems"(2), of right]
  show ?case
  proof (cases "in_range r stop step \<and> right < COLS")
    case False
    then show ?thesis
      using nz by (auto simp: traverse_right_loop.simps [of _ _ r] keys_ok_empty)
  next
    case inside: True
    then have og: "on_grid r right"
      using probe_ok_row [OF "2.prems"(2)] "2.prems"(3) by (simp add: on_grid_def)
    with "2.prems"(1) obtain s where s: "lk r right = Inr s" "lk' r right = Inr s"
      by (auto simp: agree_on_grid_def)
    have cm: "right - 1 < COLS" and cp: "0 \<le> right + 1"
      using "2.prems"(3) inside by auto
    have ir: "\<not> \<not> in_range r stop step" and gd: "\<not> COLS \<le> right"
      using inside by auto
    show ?thesis
    proof (cases s)
      case Empty
      show ?thesis
      proof (cases "skipped \<noteq> [] \<and> lst = []")
        case True
        then show ?thesis
          using nz inside s Empty by (simp add: traverse_right_loop.simps [of _ _ r] keys_ok_empty)
      next
        case rec: False
        have one: "keys_ok lk (even (r + right)) [(r, right) \<mapsto> v]" for v
          using og s(1) [unfolded Empty] by (rule keys_ok_single)
        show ?thesis
        proof (cases "lst = []")
          case True
          then show ?thesis
            using nz inside s Empty rec one by (simp add: traverse_right_loop.simps [of _ _ r])
        next
          case jump: False
          from "2.IH"(1) [OF nz ir gd s(1) Empty rec refl jump refl "2.prems"(1) pj cm, unfolded ev]
          obtain m1 where m1:
            "traverse_left_loop lk h (r + step)
               (if step = - 1 then max (r - 3) (- 1) else min (r + 3) ROWS) step clr (right - 1) lst []
             = Inr m1"
            "traverse_left_loop lk' h (r + step)
               (if step = - 1 then max (r - 3) (- 1) else min (r + 3) ROWS) step clr (right - 1) lst []
             = Inr m1"
            "keys_ok lk (even (r + right)) m1"
            by blast
          from "2.IH"(2) [OF nz ir gd s(1) Empty rec refl jump refl m1(1) "2.prems"(1) pj cp, unfolded ev]
          obtain m2 where m2:
            "traverse_right_loop lk h (r + step)
               (if step = - 1 then max (r - 3) (- 1) else min (r + 3) ROWS) step clr (right + 1) lst []
             = Inr m2"
            "traverse_right_loop lk' h (r + step)
               (if step = - 1 then max (r - 3) (- 1) else min (r + 3) ROWS) step clr (right + 1) lst []
             = Inr m2"
            "keys_ok lk (even (r + right)) m2"
            by blast
          show ?thesis
            using nz inside s Empty rec jump m1 m2 one
            by (simp add: traverse_right_loop.simps [of _ _ r] Let_def keys_ok_add)
        qed
      qed
    next
      case (Ref a)
      show ?thesis
      proof (cases "color (h a) = clr")
        case True
        then show ?thesis
          using nz inside s Ref by (simp add: traverse_right_loop.simps [of _ _ r] keys_ok_empty)
      next
        case enemy: False
        from "2.IH"(3) [OF nz ir gd s(1) Ref enemy "2.prems"(1) pn cp, unfolded ev]
        obtain m where m:
          "traverse_right_loop lk h (r + step) stop step clr (right + 1) skipped [Ref a] = Inr m"
          "traverse_right_loop lk' h (r + step) stop step clr (right + 1) skipped [Ref a] = Inr m"
          "keys_ok lk (even (r + right)) m"
          by blast
        show ?thesis
          using nz inside s Ref enemy m by (simp add: traverse_right_loop.simps [of _ _ r])
      qed
    qed
  qed
qed

lemma agree_checked: "valid_grid (board b) \<Longrightarrow> agree_on_grid (get_piece b) (get_piece_checked b)"
  by (simp add: agree_on_grid_def get_piece_checked_def get_piece_def grid_get_on on_grid_def)

lemma get_valid_moves_agree:
  assumes ag: "agree_on_grid lk lk'" and og: "on_grid (row (h a)) (col (h a))"
  shows "\<exists>m. get_valid_moves lk h a = Inr m \<and> get_valid_moves lk' h a = Inr m
           \<and> keys_ok lk (even (row (h a) + col (h a))) m"
proof -
  let ?r = "row (h a)" and ?c = "col (h a)" and ?clr = "color (h a)"
  have up: "probe_ok (?r - 1) (max (?r - 3) (- 1)) (- 1)"
    and down: "probe_ok (?r + 1) (min (?r + 3) ROWS) 1"
    and lt: "?c - 1 < COLS" and rt: "0 \<le> ?c + 1"
    using og by (auto simp: probe_ok_def on_grid_def)
  have ev: "even (?r - 1 + (?c - 1)) = even (?r + ?c)" "even (?r - 1 + (?c + 1)) = even (?r + ?c)"
     "even (?r + 1 + (?c - 1)) = even (?r + ?c)" "even (?r + 1 + (?c + 1)) = even (?r + ?c)"
    by auto
  from traverse_total(1) [OF ag up lt, of h ?clr "[]" "[]", unfolded ev] obtain m1 where m1:
    "traverse_left lk h (?r - 1) (max (?r - 3) (- 1)) (- 1) ?clr (?c - 1) [] = Inr m1"
    "traverse_left lk' h (?r - 1) (max (?r - 3) (- 1)) (- 1) ?clr (?c - 1) [] = Inr m1"
    "keys_ok lk (even (?r + ?c)) m1"
    unfolding traverse_left_def by blast
  from traverse_total(2) [OF ag up rt, of h ?clr "[]" "[]", unfolded ev] obtain m2 where m2:
    "traverse_right lk h (?r - 1) (max (?r - 3) (- 1)) (- 1) ?clr (?c + 1) [] = Inr m2"
    "traverse_right lk' h (?r - 1) (max (?r - 3) (- 1)) (- 1) ?clr (?c + 1) [] = Inr m2"
    "keys_ok lk (even (?r + ?c)) m2"
    unfolding traverse_right_def by blast
  from traverse_total(1) [OF ag down lt, of h ?clr "[]" "[]", unfolded ev] obtain m3 where m3:
    "traverse_left lk h (?r + 1) (min (?r + 3) ROWS) 1 ?clr (?c - 1) [] = Inr m3"
    "traverse_left lk' h (?r + 1) (min (?r + 3) ROWS) 1 ?clr (?c - 1) [] = Inr m3"
    "keys_ok lk (even (?r + ?c)) m3"
    unfolding traverse_left_def by blast
  from traverse_total(2) [OF ag down rt, of h ?clr "[]" "[]", unfolded ev] obtain m4 where m4:
    "traverse_right lk h (?r + 1) (min (?r + 3) ROWS) 1 ?clr (?c + 1) [] = Inr m4"
    "traverse_right lk' h (?r + 1) (min (?r + 3) ROWS) 1 ?clr (?c + 1) [] = Inr m4"
    "keys_ok lk (even (?r + ?c)) m4"
    unfolding traverse_right_def by blast
  have k: "keys_ok lk (even (?r + ?c)) ((Map.empty ++ m1) ++ m2)"
     "keys_ok lk (even (?r + ?c)) ((((Map.empty ++ m1) ++ m2) ++ m3) ++ m4)"
     "keys_ok lk (even (?r + ?c)) ((Map.empty ++ m3) ++ m4)"
     "keys_ok lk (even (?r + ?c)) Map.empty"
    using m1(3) m2(3) m3(3) m4(3) by (auto intro!: keys_ok_add keys_ok_empty)
  show ?thesis
    unfolding get_valid_moves_def Let_def m1(1,2) m2(1,2) m3(1,2) m4(1,2)
    using k by (cases "color (h a) = RED \<or> king (h a)"; cases "color (h a) = WHITE \<or> king (h a)") simp_all
qed

lemma traverse_blocked:
  "step \<noteq> 0 \<Longrightarrow> \<not> in_range r stop step \<or> left < 0 \<or> (\<exists>a. lk r left = Inr (Ref a) \<and> color (h a) = clr)
     \<Longrightarrow> traverse_left_loop lk h r stop step clr left skipped lst = Inr Map.empty"
  "step \<noteq> 0 \<Longrightarrow> \<not> in_range r stop step \<or> COLS \<le> right \<or> (\<exists>a. lk r right = Inr (Ref a) \<and> color (h a) = clr)
     \<Longrightarrow> traverse_right_loop lk h r stop step clr right skipped lst = Inr Map.empty"
  by (auto simp: traverse_left_loop.simps [of _ _ r] traverse_right_loop.simps [of _ _ r])

lemma own_or_off_blocks:
  assumes "own_or_off h b clr r c"
  shows "r < 0 \<or> ROWS \<le> r \<or> c < 0 \<or> COLS \<le> c \<or> (\<exists>a. get_piece b r c = Inr (Ref a) \<and> color (h a) = clr)"
  using assms by (auto simp: own_or_off_def on_grid_def split: sum.splits square.splits)

lemma hemmed_in_no_moves:
  assumes og: "on_grid (row (h a)) (col (h a))" and hm: "hemmed_in h b a"
  shows "get_valid_moves (get_piece b) h a = Inr Map.empty"
proof -
  let ?r = "row (h a)" and ?c = "col (h a)" and ?clr = "color (h a)" and ?lk = "get_piece b"
  from hm have o: "own_or_off h b ?clr (?r - 1) (?c - 1)" "own_or_off h b ?clr (?r - 1) (?c + 1)"
     "own_or_off h b ?clr (?r + 1) (?c - 1)" "own_or_off h b ?clr (?r + 1) (?c + 1)"
    by (simp_all add: hemmed_in_def)
  have 1: "traverse_left ?lk h (?r - 1) (max (?r - 3) (- 1)) (- 1) ?clr (?c - 1) [] = Inr Map.empty"
    unfolding traverse_left_def using own_or_off_blocks [OF o(1)] og
    by (intro traverse_blocked(1)) (auto simp: in_range_def on_grid_def ROWS_def COLS_def)
  have 2: "traverse_right ?lk h (?r - 1) (max (?r - 3) (- 1)) (- 1) ?clr (?c + 1) [] = Inr Map.empty"
    unfolding traverse_right_def using own_or_off_blocks [OF o(2)] og
    by (intro traverse_blocked(2)) (auto simp: in_range_def on_grid_def ROWS_def COLS_def)
  have 3: "traverse_left ?lk h (?r + 1) (min (?r + 3) ROWS) 1 ?clr (?c - 1) [] = Inr Map.empty"
    unfolding traverse_left_def using own_or_off_blocks [OF o(3)] og
    by (intro traverse_blocked(1)) (auto simp: in_range_def on_grid_def ROWS_def COLS_def)
  have 4: "traverse_right ?lk h (?r + 1) (min (?r + 3) ROWS) 1 ?clr (?c + 1) [] = Inr Map.empty"
    unfolding traverse_right_def using own_or_off_blocks [OF o(4)] og
    by (intro traverse_blocked(2)) (auto simp: in_range_def on_grid_def ROWS_def COLS_def)
  show ?thesis
    unfolding get_valid_moves_def Let_def 1 2 3 4 by simp
qed

text \<open>
  Claim C7. For a well-formed board (8 rows of 8 squares) and a piece with on-grid
  coordinates, \<open>get_valid_moves\<close> returns a mapping and raises nothing. The recursion of
  the two traversals is well-founded: their termination is proved with the measure
  \<open>rows_ahead\<close>, which every loop iteration and every nested call lowers, and which is
  below the board size \<open>ROWS\<close> at the calls \<open>get_valid_moves\<close> makes. The traversal never
  reads the grid outside rows 0..7 and columns 0..7: run with the reading that fails
  there, it returns the same mapping. Every destination is an on-grid square that is
  empty, and a piece with no move by the rules gets the empty mapping.
\<close>

theorem get_valid_moves_total:
  assumes "valid_grid (board b)" and "on_grid (row (h a)) (col (h a))"
  shows "\<exists>m. Board_get_valid_moves h b a = Inr m
          \<and> get_valid_moves (get_piece_checked b) h a = Inr m
          \<and> (\<forall>k \<in> dom m. on_grid (fst k) (snd k) \<and> get_piece b (fst k) (snd k) = Inr Empty)
          \<and> (hemmed_in h b a \<longrightarrow> m = Map.empty)
          \<and> rows_ahead (row (h a) - 1) (max (row (h a) - 3) (- 1)) (- 1) < nat ROWS
          \<and> rows_ahead (row (h a) + 1) (min (row (h a) + 3) ROWS) 1 < nat ROWS"
proof -
  have depth: "rows_ahead (row (h a) - 1) (max (row (h a) - 3) (- 1)) (- 1) < nat ROWS"
    "rows_ahead (row (h a) + 1) (min (row (h a) + 3) ROWS) 1 < nat ROWS"
    using assms(2) by (auto simp: rows_ahead_def on_grid_def ROWS_def)
  from get_valid_moves_agree [of "get_piece b" "get_piece_checked b" h a, OF agree_checked [OF assms(1)] assms(2)] obtain m where m:
    "get_valid_moves (get_piece b) h a = Inr m" "get_valid_moves (get_piece_checked b) h a = Inr m"
    "keys_ok (get_piece b) (even (row (h a) + col (h a))) m"
    by blast
  have "m = Map.empty" if "hemmed_in h b a"
    using hemmed_in_no_moves [OF assms(2) that] m(1) by simp
  with m depth show ?thesis
    unfolding Board_get_valid_moves_def keys_ok_def by blast
qed

text \<open>
  The double-jump position, where the mapping has the destination (6,5), and the man at
  (0,1) of the starting position, which is hemmed in and gets the empty mapping.
\<close>

theorem get_valid_moves_total_witness:
  "valid_grid (board double_jump_board)
   \<and> on_grid (row (double_jump_heap 0)) (col (double_jump_heap 0))
   \<and> (\<exists>m. Board_get_valid_moves double_jump_heap double_jump_board 0 = Inr m
         \<and> get_valid_moves (get_piece_checked double_jump_board) double_jump_heap 0 = Inr m
         \<and> (6, 5) \<in> dom m \<and> on_grid 6 5 \<and> get_piece double_jump_board 6 5 = Inr Empty)
   \<and> valid_grid (board (game_board start_game))
   \<and> on_grid (row (start_heap 0)) (col (start_heap 0))
   \<and> hemmed_in start_heap (game_board start_game) 0
   \<and> Board_get_valid_moves start_heap (game_board start_game) 0 = Inr Map.empty"
proof -
  have 1: "valid_grid (board double_jump_board)" by code_simp
  have 2: "on_grid (row (double_jump_heap 0)) (col (double_jump_heap 0))" by code_simp
  have 3: "valid_grid (board (game_board start_game))" by code_simp
  have 4: "on_grid (row (start_heap 0)) (col (start_heap 0))" by code_simp
  have 5: "hemmed_in start_heap (game_board start_game) 0" by code_simp
  have 6: "on_grid 6 5 \<and> get_piece double_jump_board 6 5 = Inr Empty" by code_simp
  from get_valid_moves_total [of double_jump_board double_jump_heap 0, OF 1 2] double_jump_eval
  have a: "\<exists>m. Board_get_valid_moves double_jump_heap double_jump_board 0 = Inr m
         \<and> get_valid_moves (get_piece_checked double_jump_board) double_jump_heap 0 = Inr m
         \<and> (6, 5) \<in> dom m"
    by auto
  from get_valid_moves_total [of "game_board start_game" start_heap 0, OF 3 4] 5
  have b: "Board_get_valid_moves start_heap (game_board start_game) 0 = Inr Map.empty"
    by auto
  from 1 2 3 4 5 6 a b show ?thesis by blast
qed

section \<open>Game._move\<close>

lemma Board_move_effect:
  assumes vg: "valid_grid (board b)" and src: "on_grid (row (h a)) (col (h a))" and dst: "on_grid r c"
  shows "\<exists>h' b'. Board_move h b (Ref a) r c = Inr (h', b')
           \<and> valid_grid (board b')
           \<and> (\<forall>p. p \<noteq> a \<longrightarrow> h' p = h p)
           \<and> row (h' a) = r \<and> col (h' a) = c \<and> color (h' a) = color (h a)
           \<and> red_left b' = red_left b \<and> white_left b' = white_left b
           \<and> (\<forall>r' c'. on_grid r' c' \<longrightarrow> board b' ! nat r' ! nat c' =
                 (if r' = r \<and> c' = c then board b ! nat (row (h a)) ! nat (col (h a))
                  else if r' = row (h a) \<and> c' = col (h a) then board b ! nat r ! nat c
                  else board b ! nat r' ! nat c'))"
proof -
  let ?g1 = "(board b)[nat (row (h a)) := (board b ! nat (row (h a)))[nat (col (h a)) := board b ! nat r ! nat c]]"
  let ?g2 = "?g1[nat r := (?g1 ! nat r)[nat c := board b ! nat (row (h a)) ! nat (col (h a))]]"
  have v1: "valid_grid ?g1" using vg by (rule valid_grid_update)
  have v2: "valid_grid ?g2" using v1 by (rule valid_grid_update)
  have sq: "?g2 ! nat r' ! nat c' =
                 (if r' = r \<and> c' = c then board b ! nat (row (h a)) ! nat (col (h a))
                  else if r' = row (h a) \<and> c' = col (h a) then board b ! nat r ! nat c
                  else board b ! nat r' ! nat c')" if "on_grid r' c'" for r' c'
  proof -
    have a1: "?g2 ! nat r' ! nat c' =
        (if r' = r \<and> c' = c then board b ! nat (row (h a)) ! nat (col (h a))
         else ?g1 ! nat r' ! nat c')"
      using v1 dst that by (rule grid_update_nth)
    have a2: "?g1 ! nat r' ! nat c' =
        (if r' = row (h a) \<and> c' = col (h a) then board b ! nat r ! nat c
         else board b ! nat r' ! nat c')"
      using vg src that by (rule grid_update_nth)
    show ?thesis
      by (subst a1, subst a2) simp
  qed
  have run: "\<exists>h' b'. Board_move h b (Ref a) r c = Inr (h', b') \<and> board b' = ?g2
           \<and> (\<forall>p. p \<noteq> a \<longrightarrow> h' p = h p)
           \<and> row (h' a) = r \<and> col (h' a) = c \<and> color (h' a) = color (h a)
           \<and> red_left b' = red_left b \<and> white_left b' = white_left b"
    by (simp add: Board_move_def grid_get_on [OF vg] grid_set_on [OF vg] grid_set_on [OF v1] src dst
        Let_def Piece_move_def calc_pos_def make_king_def)
  then obtain h' b' where r: "Board_move h b (Ref a) r c = Inr (h', b')" "board b' = ?g2"
           "\<forall>p. p \<noteq> a \<longrightarrow> h' p = h p"
           "row (h' a) = r" "col (h' a) = c" "color (h' a) = color (h a)"
           "red_left b' = red_left b" "white_left b' = white_left b"
    by blast
  show ?thesis
    using r v2 sq by (intro exI [of _ h'] exI [of _ b']) simp
qed

lemma list_pred_cong_heap:
  assumes "\<forall>p. p \<noteq> s \<longrightarrow> h' p = h p" and "list_all (\<lambda>p. p \<noteq> Ref s) sk"
  shows "list_all (piece_on_grid h') sk = list_all (piece_on_grid h) sk"
    and "filter (has_color h' clr) sk = filter (has_color h clr) sk"
    and "list_ex (stands_at h' r c) sk = list_ex (stands_at h r c) sk"
proof -
  have eq: "piece_on_grid h' p = piece_on_grid h p \<and> has_color h' clr p = has_color h clr p
            \<and> stands_at h' r c p = stands_at h r c p" if "p \<in> set sk" for p
    by (cases p; use that assms in \<open>auto simp: list_all_iff piece_on_grid_def has_color_def stands_at_def\<close>)
  show "list_all (piece_on_grid h') sk = list_all (piece_on_grid h) sk"
    using eq by (auto simp: list_all_iff)
  show "filter (has_color h' clr) sk = filter (has_color h clr) sk"
    using eq by (auto intro: filter_cong)
  show "list_ex (stands_at h' r c) sk = list_ex (stands_at h r c) sk"
    using eq by (auto simp: list_ex_iff)
qed

lemma Game_move_effect:
  assumes sel: "selected g = Some s" and off: "valid_moves g (r, c) = Some sk"
    and rdy: "move_ready h g s r c sk"
  shows "\<exists>h' b'. Game_move h g r c = Inr (True, h', change_turn (g\<lparr>game_board := b'\<rparr>))
           \<and> valid_grid (board b')
           \<and> (\<forall>p. p \<noteq> s \<longrightarrow> h' p = h p)
           \<and> row (h' s) = r \<and> col (h' s) = c \<and> color (h' s) = color (h s)
           \<and> red_left b' = red_left (game_board g) - int (length (filter (has_color h RED) sk))
           \<and> white_left b' = white_left (game_board g) - int (length (filter (has_color h WHITE) sk))
           \<and> (\<forall>r' c'. on_grid r' c' \<longrightarrow> board b' ! nat r' ! nat c' =
                 (if list_ex (stands_at h r' c') sk then Empty
                  else if r' = r \<and> c' = c then Ref s
                  else if r' = row (h s) \<and> c' = col (h s) then Empty
                  else board (game_board g) ! nat r' ! nat c'))"
proof -
  let ?b = "game_board g"
  from rdy have vg: "valid_grid (board ?b)" and dst: "on_grid r c"
    and src: "on_grid (row (h s)) (col (h s))"
    and here: "get_piece ?b (row (h s)) (col (h s)) = Inr (Ref s)"
    and there: "get_piece ?b r c = Inr Empty"
    and caps: "list_all (piece_on_grid h) sk" "list_all (\<lambda>p. p \<noteq> Ref s) sk"
    by (simp_all add: move_ready_def list_all_iff)
  have here': "board ?b ! nat (row (h s)) ! nat (col (h s)) = Ref s"
    using here grid_get_on [OF vg src] by (simp add: get_piece_def)
  have there': "board ?b ! nat r ! nat c = Empty"
    using there grid_get_on [OF vg dst] by (simp add: get_piece_def)
  from Board_move_effect [of ?b h s r c, OF vg src dst] obtain h1 b1 where m:
    "Board_move h ?b (Ref s) r c = Inr (h1, b1)" "valid_grid (board b1)"
    "\<forall>p. p \<noteq> s \<longrightarrow> h1 p = h p" "row (h1 s) = r" "col (h1 s) = c" "color (h1 s) = color (h s)"
    "red_left b1 = red_left ?b" "white_left b1 = white_left ?b"
    and g1: "\<forall>r' c'. on_grid r' c' \<longrightarrow> board b1 ! nat r' ! nat c' =
                 (if r' = r \<and> c' = c then board ?b ! nat (row (h s)) ! nat (col (h s))
                  else if r' = row (h s) \<and> c' = col (h s) then board ?b ! nat r ! nat c
                  else board ?b ! nat r' ! nat c')"
    by blast
  note cg = list_pred_cong_heap [OF m(3) caps(2)]
  have caps1: "list_all (piece_on_grid h1) sk" using caps(1) cg(1) by simp
  from remove_effect [OF m(2) caps1] obtain b2 where rm:
    "remove h1 b1 sk = Inr b2" "valid_grid (board b2)"
    "red_left b2 = red_left b1 - int (length (filter (has_color h1 RED) sk))"
    "white_left b2 = white_left b1 - int (length (filter (has_color h1 WHITE) sk))"
    and g2: "\<forall>r c. on_grid r c \<longrightarrow> board b2 ! nat r ! nat c =
                (if list_ex (stands_at h1 r c) sk then Empty else board b1 ! nat r ! nat c)"
    by blast
  have rm': "(if sk \<noteq> [] then remove h1 b1 sk else Inr b1) = Inr b2"
    using rm(1) by (cases sk) auto
  have run: "Game_move h g r c = Inr (True, h1, change_turn (g\<lparr>game_board := b2\<rparr>))"
    by (simp add: Game_move_def sel off here m(1) rm')
  have sq: "board b2 ! nat r' ! nat c' =
                 (if list_ex (stands_at h r' c') sk then Empty
                  else if r' = r \<and> c' = c then Ref s
                  else if r' = row (h s) \<and> c' = col (h s) then Empty
                  else board ?b ! nat r' ! nat c')" if "on_grid r' c'" for r' c'
    using g2 g1 that here' there' by (auto simp: cg(3))
  show ?thesis
    using run rm(2-4) m(3-8) sq cg(2)
    by (intro exI [of _ h1] exI [of _ b2]) simp
qed

lemma change_turn_fields:
  "valid_moves (change_turn g) = Map.empty" "turn (change_turn g) = other (turn g)"
  "selected (change_turn g) = selected g" "game_board (change_turn g) = game_board g"
  by (simp_all add: change_turn_def other_def Let_def)

lemma Game_move_fails:
  "selected g = None \<or> valid_moves g (r, c) = None \<Longrightarrow> Game_move h g r c = Inr (False, h, g)"
  by (auto simp: Game_move_def split: option.splits)

lemma Game_move_when_ready:
  assumes "offered_move_ok h g r c"
  shows "\<exists>res h' g'. Game_move h g r c = Inr (res, h', g')
           \<and> (res \<longleftrightarrow> selected g \<noteq> None \<and> (r, c) \<in> dom (valid_moves g))
           \<and> (\<not> res \<longrightarrow> h' = h \<and> g' = g)
           \<and> (res \<longrightarrow> (\<exists>s sk. selected g = Some s \<and> valid_moves g (r, c) = Some sk
                 \<and> get_piece (game_board g') r c = Inr (Ref s)
                 \<and> row (h' s) = r \<and> col (h' s) = c
                 \<and> get_piece (game_board g') (row (h s)) (col (h s)) = Inr Empty
                 \<and> list_all (\<lambda>p. square_of h' (game_board g') p = Inr Empty) sk
                 \<and> red_left (game_board g') =
                     red_left (game_board g) - int (length (filter (has_color h RED) sk))
                 \<and> white_left (game_board g') =
                     white_left (game_board g) - int (length (filter (has_color h WHITE) sk))
                 \<and> valid_moves g' = Map.empty
                 \<and> turn g' = other (turn g)
                 \<and> selected g' = selected g))"
proof (cases "selected g \<noteq> None \<and> (r, c) \<in> dom (valid_moves g)")
  case False
  then have "Game_move h g r c = Inr (False, h, g)"
    by (intro Game_move_fails) auto
  with False show ?thesis by auto
next
  case True
  then obtain s sk where sel: "selected g = Some s" and off: "valid_moves g (r, c) = Some sk"
    by auto
  with assms have rdy: "move_ready h g s r c sk"
    by (simp add: offered_move_ok_def)
  from rdy have dst: "on_grid r c" and src: "on_grid (row (h s)) (col (h s))"
    and here: "get_piece (game_board g) (row (h s)) (col (h s)) = Inr (Ref s)"
    and there: "get_piece (game_board g) r c = Inr Empty"
    and caps: "list_all (piece_on_grid h) sk" "list_all (\<lambda>p. p \<noteq> Ref s) sk"
      "list_all (\<lambda>p. \<not> stands_at h r c p) sk"
    by (simp_all add: move_ready_def list_all_iff)
  from Game_move_effect [OF sel off rdy] obtain h' b' where e:
    "Game_move h g r c = Inr (True, h', change_turn (g\<lparr>game_board := b'\<rparr>))"
    "valid_grid (board b')" "\<forall>p. p \<noteq> s \<longrightarrow> h' p = h p" "row (h' s) = r" "col (h' s) = c"
    "red_left b' = red_left (game_board g) - int (length (filter (has_color h RED) sk))"
    "white_left b' = white_left (game_board g) - int (length (filter (has_color h WHITE) sk))"
    and sq: "\<forall>r' c'. on_grid r' c' \<longrightarrow> board b' ! nat r' ! nat c' =
                 (if list_ex (stands_at h r' c') sk then Empty
                  else if r' = r \<and> c' = c then Ref s
                  else if r' = row (h s) \<and> c' = col (h s) then Empty
                  else board (game_board g) ! nat r' ! nat c')"
    by blast
  let ?g' = "change_turn (g\<lparr>game_board := b'\<rparr>)"
  have gb: "game_board ?g' = b'" by (simp add: change_turn_fields)
  have rd: "get_piece b' r' c' = Inr (board b' ! nat r' ! nat c')" if "on_grid r' c'" for r' c'
    using grid_get_on [OF e(2) that] by (simp add: get_piece_def)
  have nodst: "\<not> list_ex (stands_at h r c) sk"
    using caps(3) by (simp add: list_all_iff list_ex_iff)
  have d: "get_piece b' r c = Inr (Ref s)"
    using sq dst nodst by (auto simp: rd)
  have differ: "\<not> (row (h s) = r \<and> col (h s) = c)"
    using here there by auto
  have o: "get_piece b' (row (h s)) (col (h s)) = Inr Empty"
    using sq src differ by (auto simp: rd)
  have "square_of h' b' p = Inr Empty" if "p \<in> set sk" for p
  proof -
    have pp: "piece_on_grid h p" "p \<noteq> Ref s"
      using that caps by (auto simp: list_all_iff)
    obtain a where p: "p = Ref a" and a: "on_grid (row (h a)) (col (h a))" "a \<noteq> s"
      by (cases p; use pp in \<open>auto simp: piece_on_grid_def\<close>)
    have "list_ex (stands_at h (row (h a)) (col (h a))) sk"
      unfolding list_ex_iff using that stands_at_Ref [of h "row (h a)" "col (h a)" a]
      by (auto simp: p)
    with sq a(1) have "board b' ! nat (row (h a)) ! nat (col (h a)) = Empty" by simp
    then show ?thesis
      using e(3) a by (simp add: p square_of_def rd)
  qed
  then have c: "list_all (\<lambda>p. square_of h' b' p = Inr Empty) sk"
    by (simp add: list_all_iff)
  show ?thesis
    using True sel off e(1,4-7) d o c
    by (intro exI [of _ True] exI [of _ h'] exI [of _ ?g']) (simp add: change_turn_fields)
qed

section \<open>Game.select\<close>

lemma select_fresh:
  "selected g = None \<Longrightarrow>
     select h g r c =
       (case get_piece (game_board g) r c of Inl e \<Rightarrow> Inl e
        | Inr piece \<Rightarrow>
       (case piece of Empty \<Rightarrow> Inr (False, h, g)
        | Ref a \<Rightarrow>
            (if color (h a) = turn g then
               (case Board_get_valid_moves h (game_board g) a of Inl e \<Rightarrow> Inl e
                | Inr m \<Rightarrow> Inr (True, h, g\<lparr>selected := Some a, valid_moves := m\<rparr>))
             else Inr (False, h, g))))"
  by (subst select.simps) simp

lemma select_after_failed_move:
  assumes "selected g \<noteq> None" and "Game_move h g r c = Inr (False, h, g)"
  shows "select h g r c =
       (case get_piece (game_board g) r c of Inl e \<Rightarrow> Inl e
        | Inr piece \<Rightarrow>
       (case piece of Empty \<Rightarrow> Inr (False, h, g\<lparr>selected := None\<rparr>)
        | Ref a \<Rightarrow>
            (if color (h a) = turn g then
               (case Board_get_valid_moves h (game_board g) a of Inl e \<Rightarrow> Inl e
                | Inr m \<Rightarrow> Inr (True, h, g\<lparr>selected := Some a, valid_moves := m\<rparr>))
             else Inr (False, h, g\<lparr>selected := None\<rparr>))))"
  using assms
  by (subst select.simps)
     (auto simp: select_fresh split: sum.splits square.splits)

lemma select_after_move:
  assumes "selected g \<noteq> None" and "Game_move h g r c = Inr (True, h1, g1)"
  shows "select h g r c =
       (case get_piece (game_board g1) r c of Inl e \<Rightarrow> Inl e
        | Inr piece \<Rightarrow>
       (case piece of Empty \<Rightarrow> Inr (False, h1, g1)
        | Ref a \<Rightarrow>
            (if color (h1 a) = turn g1 then
               (case Board_get_valid_moves h1 (game_board g1) a of Inl e \<Rightarrow> Inl e
                | Inr m \<Rightarrow> Inr (True, h1, g1\<lparr>selected := Some a, valid_moves := m\<rparr>))
             else Inr (False, h1, g1))))"
  using assms by (subst select.simps) simp

lemma select_applies_move:
  assumes sel: "selected g = Some s" and off: "valid_moves g (r, c) = Some sk"
    and rdy: "move_ready h g s r c sk" and own: "color (h s) = turn g"
  shows "\<exists>h' b'. Game_move h g r c = Inr (True, h', change_turn (g\<lparr>game_board := b'\<rparr>))
           \<and> select h g r c = Inr (False, h', change_turn (g\<lparr>game_board := b'\<rparr>))
           \<and> get_piece b' r c = Inr (Ref s)
           \<and> color (h' s) = color (h s)"
proof -
  from Game_move_effect [OF sel off rdy] obtain h' b' where e:
    "Game_move h g r c = Inr (True, h', change_turn (g\<lparr>game_board := b'\<rparr>))"
    "valid_grid (board b')" "color (h' s) = color (h s)"
    and sq: "\<forall>r' c'. on_grid r' c' \<longrightarrow> board b' ! nat r' ! nat c' =
                 (if list_ex (stands_at h r' c') sk then Empty
                  else if r' = r \<and> c' = c then Ref s
                  else if r' = row (h s) \<and> c' = col (h s) then Empty
                  else board (game_board g) ! nat r' ! nat c')"
    by blast
  from rdy have dst: "on_grid r c" and nd: "list_all (\<lambda>p. \<not> stands_at h r c p) sk"
    by (simp_all add: move_ready_def list_all_iff)
  have "\<not> list_ex (stands_at h r c) sk"
    using nd by (simp add: list_all_iff list_ex_iff)
  with sq dst have "board b' ! nat r ! nat c = Ref s" by auto
  then have d: "get_piece b' r c = Inr (Ref s)"
    using grid_get_on [OF e(2) dst] by (simp add: get_piece_def)
  have ne: "color (h' s) \<noteq> other (turn g)"
    using e(3) own by (simp add: other_def)
  have "select h g r c = Inr (False, h', change_turn (g\<lparr>game_board := b'\<rparr>))"
    using sel by (subst select_after_move [OF _ e(1)]) (simp_all add: change_turn_fields d ne)
  with e(1,3) d show ?thesis by blast
qed

lemma select_with_nothing_offered:
  assumes "valid_moves g = Map.empty"
  shows "select h g r c = select h (g\<lparr>selected := None\<rparr>) r c"
proof (cases "selected g")
  case None
  then have "g\<lparr>selected := None\<rparr> = g" by (cases g) simp
  then show ?thesis by simp
next
  case (Some s)
  have f: "Game_move h g r c = Inr (False, h, g)"
    using assms by (intro Game_move_fails) simp
  show ?thesis
    using Some
    by (subst select_after_failed_move [OF _ f], simp, subst select_fresh, simp)
       (auto split: sum.splits square.splits)
qed

lemma select_keeps_selection_when_ready:
  assumes "selected g = Some s" and "valid_moves g (r, c) = Some sk"
    and "move_ready h g s r c sk" and "color (h s) = turn g"
  shows "\<exists>res h' g'. select h g r c = Inr (res, h', g')
           \<and> turn g' = other (turn g)
           \<and> valid_moves g' = Map.empty
           \<and> selected g' = Some s
           \<and> row (h' s) = r \<and> col (h' s) = c
           \<and> (\<forall>r2 c2. select h' g' r2 c2 = select h' (g'\<lparr>selected := None\<rparr>) r2 c2)"
proof -
  from select_applies_move [OF assms] obtain h' b' where
    m: "Game_move h g r c = Inr (True, h', change_turn (g\<lparr>game_board := b'\<rparr>))"
    and s: "select h g r c = Inr (False, h', change_turn (g\<lparr>game_board := b'\<rparr>))"
    by blast
  let ?g' = "change_turn (g\<lparr>game_board := b'\<rparr>)"
  from Game_move_effect [OF assms(1-3)] m have pos: "row (h' s) = r" "col (h' s) = c"
    by auto
  have nxt: "select h' ?g' r2 c2 = select h' (?g'\<lparr>selected := None\<rparr>) r2 c2" for r2 c2
    by (rule select_with_nothing_offered) (simp add: change_turn_fields)
  show ?thesis
    using s pos nxt assms(1)
    by (intro exI [of _ False] exI [of _ h'] exI [of _ ?g']) (simp add: change_turn_fields)
qed

lemma select_reselects_when_valid:
  assumes "selected g = Some s" and "valid_moves g (r, c) = None"
    and "valid_grid (board (game_board g))"
  shows "(\<forall>a. get_piece (game_board g) r c = Inr (Ref a) \<and> color (h a) = turn g
              \<and> on_grid (row (h a)) (col (h a))
           \<longrightarrow> (\<exists>m. Board_get_valid_moves h (game_board g) a = Inr m
                  \<and> select h g r c = Inr (True, h, g\<lparr>selected := Some a, valid_moves := m\<rparr>)))
       \<and> (get_piece (game_board g) r c = Inr Empty
            \<or> (\<exists>a. get_piece (game_board g) r c = Inr (Ref a) \<and> color (h a) \<noteq> turn g)
           \<longrightarrow> select h g r c = Inr (False, h, g\<lparr>selected := None\<rparr>))"
proof -
  have f: "Game_move h g r c = Inr (False, h, g)"
    using assms(2) by (intro Game_move_fails) simp
  have sel: "selected g \<noteq> None" using assms(1) by simp
  note u = select_after_failed_move [OF sel f]
  have own: "\<exists>m. Board_get_valid_moves h (game_board g) a = Inr m
                  \<and> select h g r c = Inr (True, h, g\<lparr>selected := Some a, valid_moves := m\<rparr>)"
    if "get_piece (game_board g) r c = Inr (Ref a)" "color (h a) = turn g"
       "on_grid (row (h a)) (col (h a))" for a
  proof -
    from get_valid_moves_agree [of "get_piece (game_board g)" "get_piece_checked (game_board g)" h a,
        OF agree_checked [OF assms(3)] that(3)]
    obtain m where "Board_get_valid_moves h (game_board g) a = Inr m"
      unfolding Board_get_valid_moves_def by blast
    then show ?thesis
      using that(1,2) by (simp add: u)
  qed
  have non: "select h g r c = Inr (False, h, g\<lparr>selected := None\<rparr>)"
    if "get_piece (game_board g) r c = Inr Empty
            \<or> (\<exists>a. get_piece (game_board g) r c = Inr (Ref a) \<and> color (h a) \<noteq> turn g)"
    using that by (auto simp: u)
  from own non show ?thesis by blast
qed

section \<open>Pieces stay on the dark squares\<close>

lemma dark_board_iff:
  "dark_board h b \<longleftrightarrow>
     valid_grid (board b)
     \<and> (\<forall>r c a. on_grid r c \<longrightarrow> board b ! nat r ! nat c = Ref a
           \<longrightarrow> row (h a) = r \<and> col (h a) = c \<and> odd (r + c))"
  by (auto simp: dark_board_def dark_square_def list_all_iff on_grid_def split: square.splits)

lemma py_pos_some: "py_pos xs i = Inr j \<Longrightarrow> j < length xs"
  by (auto simp: py_pos_def split: if_splits)

lemma grid_get_some:
  assumes "valid_grid g" and "grid_get g r c = Inr v"
  shows "\<exists>r' c'. on_grid r' c' \<and> v = g ! nat r' ! nat c'"
proof -
  from assms(2) obtain i j where i: "py_pos g r = Inr i" and j: "py_pos (g ! i) c = Inr j"
    and v: "v = g ! i ! j"
    by (auto simp: grid_get_def py_index_def split: sum.splits)
  from py_pos_some [OF i] assms(1) have il: "i < nat ROWS" by (simp add: valid_grid_def)
  then have "length (g ! i) = nat COLS"
    using assms(1) by (simp add: valid_grid_def list_all_length)
  with py_pos_some [OF j] have jl: "j < nat COLS" by simp
  have "on_grid (int i) (int j)"
    using il jl by (simp add: on_grid_def ROWS_def COLS_def)
  then show ?thesis using v by (intro exI [of _ "int i"] exI [of _ "int j"]) simp
qed

lemma grid_set_some:
  assumes "valid_grid g" and "grid_set g r c v = Inr g'"
  shows "\<exists>r' c'. on_grid r' c' \<and> g' = g[nat r' := (g ! nat r')[nat c' := v]]"
proof -
  from assms(2) obtain i j where i: "py_pos g r = Inr i" and j: "py_pos (g ! i) c = Inr j"
    and v: "g' = g[i := (g ! i)[j := v]]"
    by (auto simp: grid_set_def py_index_def py_setitem_def split: sum.splits)
  from py_pos_some [OF i] assms(1) have il: "i < nat ROWS" by (simp add: valid_grid_def)
  then have "length (g ! i) = nat COLS"
    using assms(1) by (simp add: valid_grid_def list_all_length)
  with py_pos_some [OF j] have jl: "j < nat COLS" by simp
  have "on_grid (int i) (int j)"
    using il jl by (simp add: on_grid_def ROWS_def COLS_def)
  then show ?thesis using v by (intro exI [of _ "int i"] exI [of _ "int j"]) simp
qed

lemma remove_only_clears:
  "valid_grid (board b) \<Longrightarrow> remove h b ps = Inr b' \<Longrightarrow>
     valid_grid (board b')
     \<and> (\<forall>r c. on_grid r c \<longrightarrow>
           board b' ! nat r ! nat c = Empty \<or> board b' ! nat r ! nat c = board b ! nat r ! nat c)"
proof (induction ps arbitrary: b)
  case Nil
  then show ?case by simp
next
  case (Cons p ps)
  from Cons.prems(2) obtain a g where p: "p = Ref a"
    and g: "grid_set (board b) (row (h a)) (col (h a)) Empty = Inr g"
    by (cases p) (auto split: sum.splits)
  from grid_set_some [OF Cons.prems(1) g] obtain r0 c0 where og: "on_grid r0 c0"
    and g': "g = (board b)[nat r0 := (board b ! nat r0)[nat c0 := Empty]]"
    by blast
  have vg: "valid_grid g" unfolding g' using Cons.prems(1) by (rule valid_grid_update)
  let ?b1 = "if color (h a) = RED then b\<lparr>board := g, red_left := red_left b - 1\<rparr>
             else b\<lparr>board := g, white_left := white_left b - 1\<rparr>"
  have b1: "board ?b1 = g" by simp
  have rec: "remove h ?b1 ps = Inr b'"
    using Cons.prems(2) by (auto simp: p g Let_def split: if_splits)
  from Cons.IH [OF _ rec] vg have IH: "valid_grid (board b')"
     "\<forall>r c. on_grid r c \<longrightarrow>
           board b' ! nat r ! nat c = Empty \<or> board b' ! nat r ! nat c = g ! nat r ! nat c"
    unfolding b1 by auto
  have "board b' ! nat r ! nat c = Empty \<or> board b' ! nat r ! nat c = board b ! nat r ! nat c"
    if og2: "on_grid r c" for r c
  proof -
    from IH(2) og2
    have "board b' ! nat r ! nat c = Empty \<or> board b' ! nat r ! nat c = g ! nat r ! nat c"
      by blast
    moreover have "g ! nat r ! nat c = (if r = r0 \<and> c = c0 then Empty else board b ! nat r ! nat c)"
      unfolding g' using Cons.prems(1) og og2 by (rule grid_update_nth)
    ultimately show ?thesis by (auto split: if_splits)
  qed
  with IH(1) show ?case by blast
qed

lemma keys_okD:
  "keys_ok lk e m \<Longrightarrow> m k = Some v \<Longrightarrow>
     on_grid (fst k) (snd k) \<and> lk (fst k) (snd k) = Inr Empty \<and> even (fst k + snd k) = e"
  unfolding keys_ok_def by blast

lemma Board_move_dark:
  assumes db: "dark_board h b" and dst: "on_grid r c" and od: "odd (r + c)"
    and emp: "board b ! nat r ! nat c = Empty"
    and src: "on_grid r0 c0" and pm: "board b ! nat r0 ! nat c0 = Ref p"
    and mv: "Board_move h b (Ref p) r c = Inr (h1, b1)"
  shows "dark_board h1 b1"
proof -
  from db have vg: "valid_grid (board b)"
    and dk: "\<And>r c a. on_grid r c \<Longrightarrow> board b ! nat r ! nat c = Ref a
                \<Longrightarrow> row (h a) = r \<and> col (h a) = c \<and> odd (r + c)"
    by (simp_all add: dark_board_iff)
  from dk [OF src pm] have pc: "row (h p) = r0" "col (h p) = c0" by simp_all
  have src': "on_grid (row (h p)) (col (h p))" using src pc by simp
  from Board_move_effect [of b h p r c, OF vg src' dst] mv
  have e: "valid_grid (board b1)" "\<forall>a. a \<noteq> p \<longrightarrow> h1 a = h a" "row (h1 p) = r" "col (h1 p) = c"
    and sq: "\<forall>r' c'. on_grid r' c' \<longrightarrow> board b1 ! nat r' ! nat c' =
                 (if r' = r \<and> c' = c then board b ! nat (row (h p)) ! nat (col (h p))
                  else if r' = row (h p) \<and> c' = col (h p) then board b ! nat r ! nat c
                  else board b ! nat r' ! nat c')"
    by auto
  have "row (h1 a) = r' \<and> col (h1 a) = c' \<and> odd (r' + c')"
    if og: "on_grid r' c'" and at: "board b1 ! nat r' ! nat c' = Ref a" for r' c' a
  proof (cases "r' = r \<and> c' = c")
    case True
    with sq og at pm pc have "a = p" by simp
    with True e(3,4) od show ?thesis by simp
  next
    case nd: False
    show ?thesis
    proof (cases "r' = r0 \<and> c' = c0")
      case True
      with sq og nd pc have "board b1 ! nat r' ! nat c' = board b ! nat r ! nat c" by simp
      with at emp show ?thesis by simp
    next
      case False
      with sq og at nd pc have old: "board b ! nat r' ! nat c' = Ref a" by simp
      from dk [OF og old] have k: "row (h a) = r' \<and> col (h a) = c' \<and> odd (r' + c')" .
      with False pc have "a \<noteq> p" by auto
      with e(2) k show ?thesis by simp
    qed
  qed
  with e(1) show ?thesis by (simp add: dark_board_iff)
qed

lemma dark_board_cleared:
  assumes "dark_board h b" and "valid_grid (board b')"
    and "\<forall>r c. on_grid r c \<longrightarrow>
           board b' ! nat r ! nat c = Empty \<or> board b' ! nat r ! nat c = board b ! nat r ! nat c"
  shows "dark_board h b'"
proof -
  have "row (h a) = r \<and> col (h a) = c \<and> odd (r + c)"
    if og: "on_grid r c" and at: "board b' ! nat r ! nat c = Ref a" for r c a
  proof -
    from assms(3) og
    have "board b' ! nat r ! nat c = Empty \<or> board b' ! nat r ! nat c = board b ! nat r ! nat c"
      by blast
    with at have "board b ! nat r ! nat c = Ref a" by simp
    with assms(1) og show ?thesis by (simp add: dark_board_iff)
  qed
  with assms(2) show ?thesis by (simp add: dark_board_iff)
qed

lemma Game_move_False: "Game_move h g r c = Inr (False, h1, g1) \<Longrightarrow> h1 = h \<and> g1 = g"
  by (auto simp: Game_move_def split: option.splits sum.splits)

lemma Game_move_dark:
  assumes dg: "dark_game h g" and mv: "Game_move h g r c = Inr (True, h', g')"
  shows "dark_game h' g'"
proof -
  let ?b = "game_board g"
  from mv obtain s where sel: "selected g = Some s"
    by (cases "selected g") (simp_all add: Game_move_def)
  from mv sel obtain sk where off: "valid_moves g (r, c) = Some sk"
    by (cases "valid_moves g (r, c)") (simp_all add: Game_move_def)
  note mv1 = mv [unfolded Game_move_def, simplified sel off option.case]
  from mv1 obtain pm where rd: "get_piece ?b (row (h s)) (col (h s)) = Inr pm"
    by (cases "get_piece ?b (row (h s)) (col (h s))") simp_all
  note mv2 = mv1 [simplified rd sum.case]
  from mv2 obtain h1 b1 where bm: "Board_move h ?b pm r c = Inr (h1, b1)"
    by (cases "Board_move h ?b pm r c") auto
  note mv3 = mv2 [simplified bm sum.case prod.case]
  from mv3 obtain b2 where rm: "(if sk \<noteq> [] then remove h1 b1 sk else Inr b1) = Inr b2"
    by (cases "if sk \<noteq> [] then remove h1 b1 sk else Inr b1") simp_all
  from mv3 have res: "h' = h1" "g' = change_turn (g\<lparr>game_board := b2\<rparr>)"
    by (simp_all add: rm)
  from dg have db: "dark_board h ?b" by (simp add: dark_game_def)
  then have vg: "valid_grid (board ?b)" by (simp add: dark_board_iff)
  from dg sel have "keys_ok (get_piece ?b) False (valid_moves g)"
    by (simp add: dark_game_def)
  from keys_okD [OF this off]
  have key: "on_grid r c" "get_piece ?b r c = Inr Empty" "odd (r + c)"
    by simp_all
  have emp: "board ?b ! nat r ! nat c = Empty"
    using key(2) grid_get_on [OF vg key(1)] by (simp add: get_piece_def)
  from bm obtain p where p: "pm = Ref p"
    by (cases pm) (auto simp: Board_move_def split: sum.splits)
  from grid_get_some [OF vg rd [unfolded get_piece_def]] obtain r0 c0 where
    src: "on_grid r0 c0" "board ?b ! nat r0 ! nat c0 = Ref p"
    using p by auto
  have d1: "dark_board h1 b1"
    using db key(1,3) emp src bm [unfolded p] by (rule Board_move_dark)
  then have v1: "valid_grid (board b1)" by (simp add: dark_board_iff)
  have rm': "remove h1 b1 sk = Inr b2"
    using rm by (cases sk) auto
  from remove_only_clears [OF v1 rm'] have cl: "valid_grid (board b2)"
    "\<forall>r c. on_grid r c \<longrightarrow>
       board b2 ! nat r ! nat c = Empty \<or> board b2 ! nat r ! nat c = board b1 ! nat r ! nat c"
    by blast+
  have d2: "dark_board h1 b2"
    using d1 cl by (rule dark_board_cleared)
  show ?thesis
    using d2 by (simp add: res dark_game_def change_turn_fields keys_ok_empty)
qed

lemma selection_dark:
  assumes db: "dark_board h b" and rd: "get_piece b r c = Inr (Ref a)"
    and mv: "Board_get_valid_moves h b a = Inr m"
  shows "keys_ok (get_piece b) False m"
proof -
  from db have vg: "valid_grid (board b)" by (simp add: dark_board_iff)
  from grid_get_some [OF vg rd [unfolded get_piece_def]] obtain r0 c0 where
    og: "on_grid r0 c0" and at: "board b ! nat r0 ! nat c0 = Ref a"
    by auto
  with db have pc: "row (h a) = r0" "col (h a) = c0" "odd (r0 + c0)"
    by (auto simp: dark_board_iff)
  have og': "on_grid (row (h a)) (col (h a))" using og pc by simp
  from get_valid_moves_agree [of "get_piece b" "get_piece_checked b" h a,
      OF agree_checked [OF vg] og'] mv
  show ?thesis
    using pc by (auto simp: Board_get_valid_moves_def)
qed

lemma dark_game_deselect: "dark_board h (game_board g) \<Longrightarrow> dark_game h (g\<lparr>selected := None\<rparr>)"
  by (simp add: dark_game_def)

lemma select_tail_dark:
  assumes db: "dark_board h (game_board g)" and fail: "dark_game h g0"
    and run: "(case get_piece (game_board g) r c of Inl e \<Rightarrow> Inl e
        | Inr piece \<Rightarrow>
       (case piece of Empty \<Rightarrow> Inr (False, h, g0)
        | Ref a \<Rightarrow>
            (if color (h a) = turn g then
               (case Board_get_valid_moves h (game_board g) a of Inl e \<Rightarrow> Inl e
                | Inr m \<Rightarrow> Inr (True, h, g\<lparr>selected := Some a, valid_moves := m\<rparr>))
             else Inr (False, h, g0)))) = Inr (res, h', g')"
  shows "dark_game h' g'"
proof -
  from run obtain piece where rd: "get_piece (game_board g) r c = Inr piece"
    by (cases "get_piece (game_board g) r c") simp_all
  note run1 = run [simplified rd sum.case]
  show ?thesis
  proof (cases piece)
    case Empty
    with run1 fail show ?thesis by simp
  next
    case (Ref a)
    note run2 = run1 [simplified Ref square.case]
    show ?thesis
    proof (cases "color (h a) = turn g")
      case False
      with run2 fail show ?thesis by simp
    next
      case True
      note run3 = run2 [simplified True if_True]
      from run3 obtain m where m: "Board_get_valid_moves h (game_board g) a = Inr m"
        by (cases "Board_get_valid_moves h (game_board g) a") simp_all
      from run3 have r: "h' = h" "g' = g\<lparr>selected := Some a, valid_moves := m\<rparr>"
        by (simp_all add: m)
      from selection_dark [OF db rd [unfolded Ref] m] db show ?thesis
        by (simp add: r dark_game_def)
    qed
  qed
qed

lemma select_move_error: "selected g \<noteq> None \<Longrightarrow> Game_move h g r c = Inl e \<Longrightarrow> select h g r c = Inl e"
  by (subst select.simps) simp

lemma select_dark:
  assumes dg: "dark_game h g" and run: "select h g r c = Inr (res, h', g')"
  shows "dark_game h' g'"
proof (cases "selected g")
  case None
  from dg have db: "dark_board h (game_board g)" by (simp add: dark_game_def)
  from db dg run [unfolded select_fresh [OF None]] show ?thesis
    by (rule select_tail_dark)
next
  case (Some s)
  then have sel: "selected g \<noteq> None" by simp
  from dg have db: "dark_board h (game_board g)" by (simp add: dark_game_def)
  show ?thesis
  proof (cases "Game_move h g r c")
    case (Inl e)
    from select_move_error [OF sel Inl] run show ?thesis by simp
  next
    case (Inr x)
    obtain result h1 g1 where x: "x = (result, h1, g1)" by (cases x)
    show ?thesis
    proof (cases result)
      case True
      with Inr x have mv: "Game_move h g r c = Inr (True, h1, g1)" by simp
      from Game_move_dark [OF dg mv] have d1: "dark_game h1 g1" .
      then have b1: "dark_board h1 (game_board g1)" by (simp add: dark_game_def)
      from b1 d1 run [unfolded select_after_move [OF sel mv]] show ?thesis
        by (rule select_tail_dark)
    next
      case False
      with Inr x have "Game_move h g r c = Inr (False, h1, g1)" by simp
      with Game_move_False [OF this] have mv: "Game_move h g r c = Inr (False, h, g)" by simp
      from db dark_game_deselect [OF db] run [unfolded select_after_failed_move [OF sel mv]]
      show ?thesis
        by (rule select_tail_dark)
    qed
  qed
qed

lemma reachable_dark: "reachable h g \<Longrightarrow> dark_game h g"
proof (induction rule: reachable.induct)
  case (start h0 h g)
  have "dark_board (fst (Game_init h0)) (game_board (snd (Game_init h0)))"
    by code_simp
  moreover have "selected (snd (Game_init h0)) = None"
    by code_simp
  ultimately show ?case using start by (simp add: dark_game_def)
next
  case (click h g r c res h' g')
  then show ?case by (auto intro: select_dark)
qed

lemma Inr_projr:
  "\<not> isl res \<Longrightarrow> fst (projr res) = v \<Longrightarrow>
     res = Inr (v, fst (snd (projr res)), snd (snd (projr res)))"
  by (cases res) auto

lemma reachable_opening: "reachable opening_heap opening_game"
proof -
  have r0: "reachable start_heap start_game"
    by (rule reachable.start [of heap0]) (simp add: start_heap_def start_game_def)
  have "\<not> isl (select start_heap start_game 5 0)"
    "fst (projr (select start_heap start_game 5 0)) = True"
    by code_simp+
  then have s1: "select start_heap start_game 5 0 = Inr (True, opening_heap, opening_game)"
    unfolding opening_heap_def opening_game_def by (rule Inr_projr)
  show ?thesis
    using r0 s1 by (rule reachable.click)
qed

lemma reachable_moved: "reachable moved_heap moved_game"
proof -
  have "\<not> isl (select opening_heap opening_game 4 1)"
    "fst (projr (select opening_heap opening_game 4 1)) = False"
    by code_simp+
  then have s2: "select opening_heap opening_game 4 1 = Inr (False, moved_heap, moved_game)"
    unfolding moved_heap_def moved_game_def by (rule Inr_projr)
  show ?thesis
    using reachable_opening s2 by (rule reachable.click)
qed

text \<open>
  Claim C8. The board \<open>create_board\<close> sets up has pieces only on squares with odd
  row + column. For a piece whose square has odd row + column, on a well-formed board,
  \<open>get_valid_moves\<close> returns a mapping whose every destination has odd row + column. And
  in every game state reached by any sequence of \<open>select\<close> calls (selections and applied
  moves), every piece on the board stands on a square with odd row + column, which its
  own coordinates name.
\<close>

theorem pieces_stay_on_dark_squares:
  "(\<forall>h0 h g r c a. Game_init h0 = (h, g) \<and> on_grid r c \<and> get_piece (game_board g) r c = Inr (Ref a)
        \<longrightarrow> odd (r + c))
   \<and> (\<forall>h b a. valid_grid (board b) \<and> on_grid (row (h a)) (col (h a)) \<and> odd (row (h a) + col (h a))
        \<longrightarrow> (\<exists>m. Board_get_valid_moves h b a = Inr m \<and> (\<forall>k \<in> dom m. odd (fst k + snd k))))
   \<and> (\<forall>h g r c a. reachable h g \<and> on_grid r c \<and> get_piece (game_board g) r c = Inr (Ref a)
        \<longrightarrow> odd (r + c) \<and> row (h a) = r \<and> col (h a) = c)"
proof -
  have at: "odd (r + c) \<and> row (h a) = r \<and> col (h a) = c"
    if "dark_game h g" "on_grid r c" "get_piece (game_board g) r c = Inr (Ref a)" for h g r c a
  proof -
    from that(1) have db: "dark_board h (game_board g)" by (simp add: dark_game_def)
    then have vg: "valid_grid (board (game_board g))" by (simp add: dark_board_iff)
    from that(3) grid_get_on [OF vg that(2)]
    have "board (game_board g) ! nat r ! nat c = Ref a" by (simp add: get_piece_def)
    with db that(2) show ?thesis by (simp add: dark_board_iff)
  qed
  have a: "odd (r + c)"
    if "Game_init h0 = (h, g)" "on_grid r c" "get_piece (game_board g) r c = Inr (Ref a)"
    for h0 h g r c a
    using at [OF reachable_dark [OF reachable.start [OF that(1)]] that(2,3)] by simp
  have b: "\<exists>m. Board_get_valid_moves h b a = Inr m \<and> (\<forall>k \<in> dom m. odd (fst k + snd k))"
    if "valid_grid (board b)" "on_grid (row (h a)) (col (h a))" "odd (row (h a) + col (h a))"
    for h b a
  proof -
    from get_valid_moves_agree [of "get_piece b" "get_piece_checked b" h a,
        OF agree_checked [OF that(1)] that(2)]
    obtain m where m: "Board_get_valid_moves h b a = Inr m"
      "keys_ok (get_piece b) (even (row (h a) + col (h a))) m"
      unfolding Board_get_valid_moves_def by blast
    have "odd (fst k + snd k)" if "k \<in> dom m" for k
    proof -
      from that obtain v where "m k = Some v" by auto
      from keys_okD [OF m(2) this] \<open>odd (row (h a) + col (h a))\<close> show ?thesis by simp
    qed
    with m(1) show ?thesis by blast
  qed
  have c: "odd (r + c) \<and> row (h a) = r \<and> col (h a) = c"
    if "reachable h g" "on_grid r c" "get_piece (game_board g) r c = Inr (Ref a)" for h g r c a
    using at [OF reachable_dark [OF that(1)] that(2,3)] .
  from a b c show ?thesis by blast
qed

text \<open>
  The man at (2,1) of the starting position, the double-jump position with its
  destination (6,5), and the RED man on (4,1) after the opening move.
\<close>

theorem pieces_stay_on_dark_squares_witness:
  "Game_init heap0 = (start_heap, start_game) \<and> on_grid 2 1
   \<and> get_piece (game_board start_game) 2 1 = Inr (Ref 8)
   \<and> valid_grid (board double_jump_board)
   \<and> on_grid (row (double_jump_heap 0)) (col (double_jump_heap 0))
   \<and> odd (row (double_jump_heap 0) + col (double_jump_heap 0))
   \<and> (\<exists>m. Board_get_valid_moves double_jump_heap double_jump_board 0 = Inr m
         \<and> (6, 5) \<in> dom m \<and> odd (fst (6 :: int, 5 :: int) + snd (6 :: int, 5 :: int)))
   \<and> reachable moved_heap moved_game \<and> on_grid 4 1
   \<and> get_piece (game_board moved_game) 4 1 = Inr (Ref 12)
   \<and> row (moved_heap 12) = 4 \<and> col (moved_heap 12) = 1"
proof -
  have 1: "Game_init heap0 = (start_heap, start_game)"
    by (simp add: start_heap_def start_game_def)
  have 2: "on_grid 2 1 \<and> get_piece (game_board start_game) 2 1 = Inr (Ref 8)" by code_simp
  have 3: "valid_grid (board double_jump_board)
     \<and> on_grid (row (double_jump_heap 0)) (col (double_jump_heap 0))
     \<and> odd (row (double_jump_heap 0) + col (double_jump_heap 0))" by code_simp
  have 4: "on_grid 4 1 \<and> get_piece (game_board moved_game) 4 1 = Inr (Ref 12)" by code_simp
  note t = pieces_stay_on_dark_squares
  from t 3 double_jump_eval
  have b: "\<exists>m. Board_get_valid_moves double_jump_heap double_jump_board 0 = Inr m
         \<and> (6, 5) \<in> dom m \<and> odd (fst (6 :: int, 5 :: int) + snd (6 :: int, 5 :: int))"
    by auto
  from t reachable_moved 4 have c: "row (moved_heap 12) = 4 \<and> col (moved_heap 12) = 1"
    by blast
  from 1 2 3 4 b c reachable_moved show ?thesis by blast
qed

section \<open>Offered moves in reachable games\<close>

lemma caps_ok_empty: "caps_ok lk h clr Map.empty"
  by (simp add: caps_ok_def)

lemma caps_ok_add: "caps_ok lk h clr m \<Longrightarrow> caps_ok lk h clr m' \<Longrightarrow> caps_ok lk h clr (m ++ m')"
  by (auto simp: caps_ok_def map_add_Some_iff)

lemma caps_ok_single: "list_all (enemy_on_grid lk h clr) v \<Longrightarrow> caps_ok lk h clr [k \<mapsto> v]"
  by (simp add: caps_ok_def)

lemma traverse_captures:
  shows "agree_on_grid lk lk \<Longrightarrow> probe_ok r stop step \<Longrightarrow> left < COLS \<Longrightarrow>
           list_all (enemy_on_grid lk h clr) skipped \<Longrightarrow> list_all (enemy_on_grid lk h clr) lst \<Longrightarrow>
           (\<exists>m. traverse_left_loop lk h r stop step clr left skipped lst = Inr m
               \<and> caps_ok lk h clr m)"
    and "agree_on_grid lk lk \<Longrightarrow> probe_ok r stop step \<Longrightarrow> 0 \<le> right \<Longrightarrow>
           list_all (enemy_on_grid lk h clr) skipped \<Longrightarrow> list_all (enemy_on_grid lk h clr) lst \<Longrightarrow>
           (\<exists>m. traverse_right_loop lk h r stop step clr right skipped lst = Inr m
               \<and> caps_ok lk h clr m)"
proof (induction lk h r stop step clr left skipped lst and lk h r stop step clr right skipped lst
       rule: traverse_left_loop_traverse_right_loop.induct)
  case (1 lk h r stop step clr left skipped lst)
  note nz = probe_ok_step [OF "1.prems"(2)]
  note pj = probe_ok_jump [OF "1.prems"(2)]
  note pn = probe_ok_next [OF "1.prems"(2)]
  note sk = "1.prems"(4) and ls = "1.prems"(5)
  have nil: "list_all (enemy_on_grid lk h clr) []" by simp
  show ?case
  proof (cases "in_range r stop step \<and> 0 \<le> left")
    case False
    then show ?thesis
      using nz by (auto simp: traverse_left_loop.simps [of _ _ r] caps_ok_empty)
  next
    case inside: True
    then have og: "on_grid r left"
      using probe_ok_row [OF "1.prems"(2)] "1.prems"(3) by (simp add: on_grid_def)
    with "1.prems"(1) obtain s where s: "lk r left = Inr s"
      by (auto simp: agree_on_grid_def)
    have cm: "left - 1 < COLS" and cp: "0 \<le> left + 1"
      using "1.prems"(3) inside by auto
    have ir: "\<not> \<not> in_range r stop step" and gd: "\<not> left < 0"
      using inside by auto
    show ?thesis
    proof (cases s)
      case Empty
      show ?thesis
      proof (cases "skipped \<noteq> [] \<and> lst = []")
        case True
        then show ?thesis
          using nz inside s Empty by (simp add: traverse_left_loop.simps [of _ _ r] caps_ok_empty)
      next
        case rec: False
        have "list_all (enemy_on_grid lk h clr) (if skipped \<noteq> [] then lst @ skipped else lst)"
          using sk ls by simp
        then have one: "caps_ok lk h clr
            [(r, left) \<mapsto> (if skipped \<noteq> [] then lst @ skipped else lst)]"
          by (rule caps_ok_single)
        show ?thesis
        proof (cases "lst = []")
          case True
          then show ?thesis
            using nz inside s Empty rec one by (simp add: traverse_left_loop.simps [of _ _ r])
        next
          case jump: False
          from "1.IH"(1) [OF nz ir gd s Empty rec refl jump refl "1.prems"(1) pj cm ls nil]
          obtain m1 where m1:
            "traverse_left_loop lk h (r + step)
               (if step = - 1 then max (r - 3) (- 1) else min (r + 3) ROWS) step clr (left - 1) lst []
             = Inr m1"
            "caps_ok lk h clr m1"
            by blast
          from "1.IH"(2) [OF nz ir gd s Empty rec refl jump refl m1(1) "1.prems"(1) pj cp ls nil]
          obtain m2 where m2:
            "traverse_right_loop lk h (r + step)
               (if step = - 1 then max (r - 3) (- 1) else min (r + 3) ROWS) step clr (left + 1) lst []
             = Inr m2"
            "caps_ok lk h clr m2"
            by blast
          have all: "caps_ok lk h clr
            (([(r, left) \<mapsto> (if skipped \<noteq> [] then lst @ skipped else lst)] ++ m1) ++ m2)"
            using one m1(2) m2(2) by (intro caps_ok_add)
          show ?thesis
            using nz inside s Empty rec jump m1(1) m2(1) all
            by (simp add: traverse_left_loop.simps [of _ _ r] Let_def)
        qed
      qed
    next
      case (Ref a)
      show ?thesis
      proof (cases "color (h a) = clr")
        case True
        then show ?thesis
          using nz inside s Ref by (simp add: traverse_left_loop.simps [of _ _ r] caps_ok_empty)
      next
        case enemy: False
        have "enemy_on_grid lk h clr (Ref a)"
          unfolding enemy_on_grid_def using enemy og s [unfolded Ref] by blast
        then have new: "list_all (enemy_on_grid lk h clr) [Ref a]" by simp
        from "1.IH"(3) [OF nz ir gd s Ref enemy "1.prems"(1) pn cm sk new]
        obtain m where m:
          "traverse_left_loop lk h (r + step) stop step clr (left - 1) skipped [Ref a] = Inr m"
          "caps_ok lk h clr m"
          by blast
        show ?thesis
          using nz inside s Ref enemy m by (simp add: traverse_left_loop.simps [of _ _ r])
      qed
    qed
  qed
next
  case (2 lk h r stop step clr right skipped lst)
  note nz = probe_ok_step [OF "2.prems"(2)]
  note pj = probe_ok_jump [OF "2.prems"(2)]
  note pn = probe_ok_next [OF "2.prems"(2)]
  note sk = "2.prems"(4) and ls = "2.prems"(5)
  have nil: "list_all (enemy_on_grid lk h clr) []" by simp
  show ?case
  proof (cases "in_range r stop step \<and> right < COLS")
    case False
    then show ?thesis
      using nz by (auto simp: traverse_right_loop.simps [of _ _ r] caps_ok_empty)
  next
    case inside: True
    then have og: "on_grid r right"
      using probe_ok_row [OF "2.prems"(2)] "2.prems"(3) by (simp add: on_grid_def)
    with "2.prems"(1) obtain s where s: "lk r right = Inr s"
      by (auto simp: agree_on_grid_def)
    have cm: "right - 1 < COLS" and cp: "0 \<le> right + 1"
      using "2.prems"(3) inside by auto
    have ir: "\<not> \<not> in_range r stop step" and gd: "\<not> COLS \<le> right"
      using inside by auto
    show ?thesis
    proof (cases s)
      case Empty
      show ?thesis
      proof (cases "skipped \<noteq> [] \<and> lst = []")
        case True
        then show ?thesis
          using nz inside s Empty by (simp add: traverse_right_loop.simps [of _ _ r] caps_ok_empty)
      next
        case rec: False
        have "list_all (enemy_on_grid lk h clr) (if skipped \<noteq> [] then lst @ skipped else lst)"
          using sk ls by simp
        then have one: "caps_ok lk h clr
            [(r, right) \<mapsto> (if skipped \<noteq> [] then lst @ skipped else lst)]"
          by (rule caps_ok_single)
        show ?thesis
        proof (cases "lst = []")
          case True
          then show ?thesis
            using nz inside s Empty rec one by (simp add: traverse_right_loop.simps [of _ _ r])
        next
          case jump: False
          from "2.IH"(1) [OF nz ir gd s Empty rec refl jump refl "2.prems"(1) pj cm ls nil]
          obtain m1 where m1:
            "traverse_left_loop lk h (r + step)
               (if step = - 1 then max (r - 3) (- 1) else min (r + 3) ROWS) step clr (right - 1) lst []
             = Inr m1"
            "caps_ok lk h clr m1"
            by blast
          from "2.IH"(2) [OF nz ir gd s Empty rec refl jump refl m1(1) "2.prems"(1) pj cp ls nil]
          obtain m2 where m2:
            "traverse_right_loop lk h (r + step)
               (if step = - 1 then max (r - 3) (- 1) else min (r + 3) ROWS) step clr (right + 1) lst []
             = Inr m2"
            "caps_ok lk h clr m2"
            by blast
          have all: "caps_ok lk h clr
            (([(r, right) \<mapsto> (if skipped \<noteq> [] then lst @ skipped else lst)] ++ m1) ++ m2)"
            using one m1(2) m2(2) by (intro caps_ok_add)
          show ?thesis
            using nz inside s Empty rec jump m1(1) m2(1) all
            by (simp add: traverse_right_loop.simps [of _ _ r] Let_def)
        qed
      qed
    next
      case (Ref a)
      show ?thesis
      proof (cases "color (h a) = clr")
        case True
        then show ?thesis
          using nz inside s Ref by (simp add: traverse_right_loop.simps [of _ _ r] caps_ok_empty)
      next
        case enemy: False
        have "enemy_on_grid lk h clr (Ref a)"
          unfolding enemy_on_grid_def using enemy og s [unfolded Ref] by blast
        then have new: "list_all (enemy_on_grid lk h clr) [Ref a]" by simp
        from "2.IH"(3) [OF nz ir gd s Ref enemy "2.prems"(1) pn cp sk new]
        obtain m where m:
          "traverse_right_loop lk h (r + step) stop step clr (right + 1) skipped [Ref a] = Inr m"
          "caps_ok lk h clr m"
          by blast
        show ?thesis
          using nz inside s Ref enemy m by (simp add: traverse_right_loop.simps [of _ _ r])
      qed
    qed
  qed
qed

lemma get_valid_moves_captures:
  assumes ag: "agree_on_grid lk lk" and og: "on_grid (row (h a)) (col (h a))"
    and run: "get_valid_moves lk h a = Inr m"
  shows "caps_ok lk h (color (h a)) m"
proof -
  let ?r = "row (h a)" and ?c = "col (h a)" and ?clr = "color (h a)"
  have up: "probe_ok (?r - 1) (max (?r - 3) (- 1)) (- 1)"
    and down: "probe_ok (?r + 1) (min (?r + 3) ROWS) 1"
    and lt: "?c - 1 < COLS" and rt: "0 \<le> ?c + 1"
    using og by (auto simp: probe_ok_def on_grid_def)
  have nil: "list_all (enemy_on_grid lk h ?clr) []" by simp
  from traverse_captures(1) [OF ag up lt nil nil] obtain m1 where m1:
    "traverse_left lk h (?r - 1) (max (?r - 3) (- 1)) (- 1) ?clr (?c - 1) [] = Inr m1"
    "caps_ok lk h ?clr m1"
    unfolding traverse_left_def by blast
  from traverse_captures(2) [OF ag up rt nil nil] obtain m2 where m2:
    "traverse_right lk h (?r - 1) (max (?r - 3) (- 1)) (- 1) ?clr (?c + 1) [] = Inr m2"
    "caps_ok lk h ?clr m2"
    unfolding traverse_right_def by blast
  from traverse_captures(1) [OF ag down lt nil nil] obtain m3 where m3:
    "traverse_left lk h (?r + 1) (min (?r + 3) ROWS) 1 ?clr (?c - 1) [] = Inr m3"
    "caps_ok lk h ?clr m3"
    unfolding traverse_left_def by blast
  from traverse_captures(2) [OF ag down rt nil nil] obtain m4 where m4:
    "traverse_right lk h (?r + 1) (min (?r + 3) ROWS) 1 ?clr (?c + 1) [] = Inr m4"
    "caps_ok lk h ?clr m4"
    unfolding traverse_right_def by blast
  have k: "caps_ok lk h ?clr ((Map.empty ++ m1) ++ m2)"
     "caps_ok lk h ?clr ((((Map.empty ++ m1) ++ m2) ++ m3) ++ m4)"
     "caps_ok lk h ?clr ((Map.empty ++ m3) ++ m4)"
     "caps_ok lk h ?clr Map.empty"
    using m1(2) m2(2) m3(2) m4(2) by (auto intro!: caps_ok_add caps_ok_empty)
  from run [unfolded get_valid_moves_def Let_def m1(1) m2(1) m3(1) m4(1)] k
  show ?thesis
    by (cases "color (h a) = RED \<or> king (h a)"; cases "color (h a) = WHITE \<or> king (h a)")
       auto
qed

lemma agree_self: "valid_grid (board b) \<Longrightarrow> agree_on_grid (get_piece b) (get_piece b)"
  by (simp add: agree_on_grid_def get_piece_def grid_get_on)

lemma selection_ready:
  assumes db: "dark_board h b" and rd: "get_piece b r c = Inr (Ref a)"
    and mv: "Board_get_valid_moves h b a = Inr m" and off: "m k = Some sk"
    and gb: "game_board g = b"
  shows "move_ready h g a (fst k) (snd k) sk"
proof -
  from db have vg: "valid_grid (board b)"
    and dk: "\<And>r c a. on_grid r c \<Longrightarrow> board b ! nat r ! nat c = Ref a
                \<Longrightarrow> row (h a) = r \<and> col (h a) = c \<and> odd (r + c)"
    by (simp_all add: dark_board_iff)
  from grid_get_some [OF vg rd [unfolded get_piece_def]] obtain r0 c0 where
    og: "on_grid r0 c0" and at: "board b ! nat r0 ! nat c0 = Ref a"
    by auto
  from dk [OF og at] have pc: "row (h a) = r0" "col (h a) = c0" by simp_all
  have og': "on_grid (row (h a)) (col (h a))" using og pc by simp
  have here: "get_piece b (row (h a)) (col (h a)) = Inr (Ref a)"
    using grid_get_on [OF vg og'] at pc by (simp add: get_piece_def)
  from selection_dark [OF db rd mv] have "keys_ok (get_piece b) False m" .
  from keys_okD [OF this off]
  have key: "on_grid (fst k) (snd k)" "get_piece b (fst k) (snd k) = Inr Empty" by simp_all
  from get_valid_moves_captures [OF agree_self [OF vg] og' mv [unfolded Board_get_valid_moves_def]]
  have "list_all (enemy_on_grid (get_piece b) h (color (h a))) sk"
    using off unfolding caps_ok_def by blast
  moreover have "piece_on_grid h p \<and> p \<noteq> Ref a \<and> \<not> stands_at h (fst k) (snd k) p"
    if "enemy_on_grid (get_piece b) h (color (h a)) p" for p
  proof -
    from that obtain x r1 c1 where p: "p = Ref x" and cl: "color (h x) \<noteq> color (h a)"
      and o1: "on_grid r1 c1" and l1: "get_piece b r1 c1 = Inr (Ref x)"
      unfolding enemy_on_grid_def by blast
    from l1 grid_get_on [OF vg o1] have a1: "board b ! nat r1 ! nat c1 = Ref x"
      by (simp add: get_piece_def)
    from dk [OF o1 a1] have xc: "row (h x) = r1" "col (h x) = c1" by simp_all
    have "\<not> (r1 = fst k \<and> c1 = snd k)"
      using l1 key(2) by auto
    with xc o1 cl show ?thesis
      by (auto simp: p piece_on_grid_def stands_at_def)
  qed
  ultimately have "list_all (\<lambda>p. piece_on_grid h p \<and> p \<noteq> Ref a \<and> \<not> stands_at h (fst k) (snd k) p) sk"
    by (simp add: list_all_iff)
  with vg key og' here show ?thesis
    by (simp add: move_ready_def gb)
qed

lemma offers_ready_deselect: "offers_ready h (g\<lparr>selected := None\<rparr>)"
  by (simp add: offers_ready_def)

lemma offers_ready_none: "valid_moves g = Map.empty \<Longrightarrow> offers_ready h g"
  by (simp add: offers_ready_def)

lemma select_tail_ready:
  assumes db: "dark_board h (game_board g)" and fail: "offers_ready h g0"
    and run: "(case get_piece (game_board g) r c of Inl e \<Rightarrow> Inl e
        | Inr piece \<Rightarrow>
       (case piece of Empty \<Rightarrow> Inr (False, h, g0)
        | Ref a \<Rightarrow>
            (if color (h a) = turn g then
               (case Board_get_valid_moves h (game_board g) a of Inl e \<Rightarrow> Inl e
                | Inr m \<Rightarrow> Inr (True, h, g\<lparr>selected := Some a, valid_moves := m\<rparr>))
             else Inr (False, h, g0)))) = Inr (res, h', g')"
  shows "offers_ready h' g'"
proof -
  from run obtain piece where rd: "get_piece (game_board g) r c = Inr piece"
    by (cases "get_piece (game_board g) r c") simp_all
  note run1 = run [simplified rd sum.case]
  show ?thesis
  proof (cases piece)
    case Empty
    with run1 fail show ?thesis by simp
  next
    case (Ref a)
    note run2 = run1 [simplified Ref square.case]
    show ?thesis
    proof (cases "color (h a) = turn g")
      case False
      with run2 fail show ?thesis by simp
    next
      case True
      note run3 = run2 [simplified True if_True]
      from run3 obtain m where m: "Board_get_valid_moves h (game_board g) a = Inr m"
        by (cases "Board_get_valid_moves h (game_board g) a") simp_all
      from run3 have r: "h' = h" "g' = g\<lparr>selected := Some a, valid_moves := m\<rparr>"
        by (simp_all add: m)
      have "move_ready h g' a (fst k) (snd k) sk" if "m k = Some sk" for k sk
        using db rd [unfolded Ref] m that by (rule selection_ready) (simp add: r)
      then have "move_ready h g' a kr kc sk" if "m (kr, kc) = Some sk" for kr kc sk
        using that by fastforce
      with True show ?thesis
        by (simp add: r offers_ready_def)
    qed
  qed
qed

lemma Game_move_True_empties:
  assumes "Game_move h g r c = Inr (True, h1, g1)"
  shows "valid_moves g1 = Map.empty"
proof -
  from assms obtain b2 where "g1 = change_turn (g\<lparr>game_board := b2\<rparr>)"
    by (auto simp: Game_move_def split: option.splits sum.splits)
  then show ?thesis by (simp add: change_turn_fields)
qed

lemma select_offers_ready:
  assumes dg: "dark_game h g" and run: "select h g r c = Inr (res, h', g')"
    and orr: "offers_ready h g"
  shows "offers_ready h' g'"
proof (cases "selected g")
  case None
  from dg have db: "dark_board h (game_board g)" by (simp add: dark_game_def)
  from db orr run [unfolded select_fresh [OF None]] show ?thesis
    by (rule select_tail_ready)
next
  case (Some s)
  then have sel: "selected g \<noteq> None" by simp
  from dg have db: "dark_board h (game_board g)" by (simp add: dark_game_def)
  show ?thesis
  proof (cases "Game_move h g r c")
    case (Inl e)
    from select_move_error [OF sel Inl] run show ?thesis by simp
  next
    case (Inr res1)
    obtain result h1 g1 where x: "res1 = (result, h1, g1)" by (cases res1)
    show ?thesis
    proof (cases result)
      case True
      with Inr x have mv: "Game_move h g r c = Inr (True, h1, g1)" by simp
      from Game_move_dark [OF dg mv] have b1: "dark_board h1 (game_board g1)"
        by (simp add: dark_game_def)
      from Game_move_True_empties [OF mv] have o1: "offers_ready h1 g1"
        by (rule offers_ready_none)
      from b1 o1 run [unfolded select_after_move [OF sel mv]] show ?thesis
        by (rule select_tail_ready)
    next
      case False
      with Inr x have "Game_move h g r c = Inr (False, h1, g1)" by simp
      with Game_move_False [OF this] have mv: "Game_move h g r c = Inr (False, h, g)" by simp
      from db offers_ready_deselect run [unfolded select_after_failed_move [OF sel mv]]
      show ?thesis
        by (rule select_tail_ready)
    qed
  qed
qed

lemma reachable_ready: "reachable h g \<Longrightarrow> offers_ready h g"
proof (induction rule: reachable.induct)
  case (start h0 h g)
  have "valid_moves (snd (Game_init h0)) = Map.empty"
    by (simp add: Game_init_def split: prod.splits)
  with start show ?case by (simp add: offers_ready_none)
next
  case (click h g r c res h' g')
  from reachable_dark [OF click.hyps(1)] click.hyps(2) click.IH show ?case
    by (rule select_offers_ready)
qed

lemma reachable_offer:
  assumes "reachable h g" and "selected g = Some s" and "valid_moves g (r, c) = Some sk"
  shows "move_ready h g s r c sk" and "color (h s) = turn g"
  using reachable_ready [OF assms(1)] assms(2,3) unfolding offers_ready_def by fastforce+

section \<open>The turn controller in reachable games\<close>

text \<open>
  Claim C6. In every reachable game \<open>Game._move(row, col)\<close> returns, and it succeeds
  exactly when a piece is selected and \<open>(row, col)\<close> is a key of \<open>valid_moves\<close>. On
  failure it returns \<open>False\<close> and the store and the whole game state are unchanged. On
  success the selected piece is on the destination square with its coordinates
  updated, its old square is empty, the squares of the captured pieces are empty and
  their colours' counts are lowered by their number, \<open>valid_moves\<close> is empty and the turn
  is the other colour.
\<close>

theorem Game_move_succeeds_iff_offered:
  assumes "reachable h g"
  shows "\<exists>res h' g'. Game_move h g r c = Inr (res, h', g')
           \<and> (res \<longleftrightarrow> selected g \<noteq> None \<and> (r, c) \<in> dom (valid_moves g))
           \<and> (\<not> res \<longrightarrow> h' = h \<and> g' = g)
           \<and> (res \<longrightarrow> (\<exists>s sk. selected g = Some s \<and> valid_moves g (r, c) = Some sk
                 \<and> get_piece (game_board g') r c = Inr (Ref s)
                 \<and> row (h' s) = r \<and> col (h' s) = c
                 \<and> get_piece (game_board g') (row (h s)) (col (h s)) = Inr Empty
                 \<and> list_all (\<lambda>p. square_of h' (game_board g') p = Inr Empty) sk
                 \<and> red_left (game_board g') =
                     red_left (game_board g) - int (length (filter (has_color h RED) sk))
                 \<and> white_left (game_board g') =
                     white_left (game_board g) - int (length (filter (has_color h WHITE) sk))
                 \<and> valid_moves g' = Map.empty
                 \<and> turn g' = other (turn g)
                 \<and> selected g' = selected g))"
proof -
  have "offered_move_ok h g r c"
    using reachable_offer(1) [OF assms]
    by (auto simp: offered_move_ok_def split: option.splits)
  then show ?thesis by (rule Game_move_when_ready)
qed

text \<open>
  The opening move from (5,0) to (4,1) of the RED man selected by the first click, and a
  click on (3,0), which is not offered.
\<close>

theorem Game_move_succeeds_iff_offered_witness:
  "reachable opening_heap opening_game
   \<and> selected opening_game = Some 12
   \<and> valid_moves opening_game (4, 1) = Some []
   \<and> turn opening_game = RED
   \<and> (\<exists>h' g'. Game_move opening_heap opening_game 4 1 = Inr (True, h', g')
         \<and> get_piece (game_board g') 4 1 = Inr (Ref 12)
         \<and> get_piece (game_board g') 5 0 = Inr Empty
         \<and> turn g' = WHITE \<and> valid_moves g' = Map.empty)
   \<and> valid_moves opening_game (3, 0) = None
   \<and> Game_move opening_heap opening_game 3 0 = Inr (False, opening_heap, opening_game)"
proof -
  note 1 = reachable_opening
  have 2: "selected opening_game = Some 12 \<and> valid_moves opening_game (4, 1) = Some []
     \<and> turn opening_game = RED \<and> row (opening_heap 12) = 5 \<and> col (opening_heap 12) = 0"
    by code_simp
  have 4: "valid_moves opening_game (3, 0) = None" by code_simp
  have 5: "Game_move opening_heap opening_game 3 0 = Inr (False, opening_heap, opening_game)"
    using 4 Game_move_succeeds_iff_offered [OF 1, of 3 0] by auto
  have 6: "\<exists>h' g'. Game_move opening_heap opening_game 4 1 = Inr (True, h', g')
         \<and> get_piece (game_board g') 4 1 = Inr (Ref 12)
         \<and> get_piece (game_board g') 5 0 = Inr Empty
         \<and> turn g' = WHITE \<and> valid_moves g' = Map.empty"
    using 2 Game_move_succeeds_iff_offered [OF 1, of 4 1]
    by (auto simp: other_def)
  from 1 2 4 5 6 show ?thesis by blast
qed

text \<open>
  Claim C10. In every reachable game, when \<open>select(row, col)\<close> is called with a piece
  selected and \<open>(row, col)\<close> an offered destination, \<open>_move\<close> applies the move and the
  \<open>select\<close> call itself returns \<open>False\<close>, with the state \<open>_move\<close> left. In that state the
  turn has flipped to the other colour, the selected piece is the one on \<open>(row, col)\<close>,
  and its colour, which was the turn's before the call, is not the new turn's: that is
  why the re-selection at the end of \<open>select\<close> fails.
\<close>

theorem select_returns_False_after_move:
  assumes "reachable h g" and "selected g = Some s" and "valid_moves g (r, c) = Some sk"
  shows "\<exists>h' g'. Game_move h g r c = Inr (True, h', g')
           \<and> select h g r c = Inr (False, h', g')
           \<and> turn g' = other (turn g)
           \<and> get_piece (game_board g') r c = Inr (Ref s)
           \<and> color (h s) = turn g
           \<and> color (h' s) = color (h s)
           \<and> color (h' s) \<noteq> turn g'"
proof -
  note own = reachable_offer(2) [OF assms]
  from select_applies_move [OF assms(2,3) reachable_offer [OF assms]] obtain h' b' where
    m: "Game_move h g r c = Inr (True, h', change_turn (g\<lparr>game_board := b'\<rparr>))"
    and s: "select h g r c = Inr (False, h', change_turn (g\<lparr>game_board := b'\<rparr>))"
    and d: "get_piece b' r c = Inr (Ref s)"
    and k: "color (h' s) = color (h s)"
    by blast
  let ?g' = "change_turn (g\<lparr>game_board := b'\<rparr>)"
  have t: "turn ?g' = other (turn g)" by (simp add: change_turn_fields)
  have b: "get_piece (game_board ?g') r c = Inr (Ref s)"
    using d by (simp add: change_turn_fields)
  have ne: "color (h' s) \<noteq> turn ?g'"
    using k own t by (simp add: other_def)
  from m s t b own k ne show ?thesis by blast
qed

text \<open>The opening move (5,0) to (4,1), clicked after the man was selected.\<close>

theorem select_returns_False_after_move_witness:
  "reachable opening_heap opening_game
   \<and> selected opening_game = Some 12 \<and> valid_moves opening_game (4, 1) = Some []
   \<and> turn opening_game = RED
   \<and> (\<exists>h' g'. Game_move opening_heap opening_game 4 1 = Inr (True, h', g')
          \<and> select opening_heap opening_game 4 1 = Inr (False, h', g')
          \<and> turn g' = WHITE
          \<and> get_piece (game_board g') 4 1 = Inr (Ref 12)
          \<and> color (h' 12) = RED)"
proof -
  have 1: "selected opening_game = Some 12" by code_simp
  have 2: "valid_moves opening_game (4, 1) = Some []" by code_simp
  have 3: "turn opening_game = RED" by code_simp
  from select_returns_False_after_move [OF reachable_opening 1 2] 3
  have "\<exists>h' g'. Game_move opening_heap opening_game 4 1 = Inr (True, h', g')
          \<and> select opening_heap opening_game 4 1 = Inr (False, h', g')
          \<and> turn g' = WHITE
          \<and> get_piece (game_board g') 4 1 = Inr (Ref 12)
          \<and> color (h' 12) = RED"
    by (auto simp: other_def)
  with reachable_opening 1 2 3 show ?thesis by blast
qed

text \<open>
  Claim C4, as the code has it. In every reachable game, when \<open>select(row, col)\<close> is
  called with a piece selected and \<open>(row, col)\<close> an offered destination, the move is
  applied: after the call the turn has advanced to the other colour and \<open>valid_moves\<close>
  is empty, but \<open>Game.selected\<close> is not cleared: it still refers to the moved piece, now
  at \<open>(row, col)\<close>. With nothing offered, the next \<open>select\<close> call does what it would do
  with no selection.
\<close>

theorem select_keeps_selection_after_move:
  assumes "reachable h g" and "selected g = Some s" and "valid_moves g (r, c) = Some sk"
  shows "\<exists>res h' g'. select h g r c = Inr (res, h', g')
           \<and> turn g' = other (turn g)
           \<and> valid_moves g' = Map.empty
           \<and> selected g' = Some s
           \<and> row (h' s) = r \<and> col (h' s) = c
           \<and> (\<forall>r2 c2. select h' g' r2 c2 = select h' (g'\<lparr>selected := None\<rparr>) r2 c2)"
  using assms(2,3) reachable_offer [OF assms] by (rule select_keeps_selection_when_ready)

text \<open>The opening move again: RED's man 12 is still selected when it is WHITE's turn.\<close>

theorem select_keeps_selection_after_move_witness:
  "reachable opening_heap opening_game
   \<and> selected opening_game = Some 12 \<and> valid_moves opening_game (4, 1) = Some []
   \<and> (\<exists>res h' g'. select opening_heap opening_game 4 1 = Inr (res, h', g')
          \<and> turn g' = WHITE \<and> selected g' = Some 12)"
proof -
  have 1: "selected opening_game = Some 12" by code_simp
  have 2: "valid_moves opening_game (4, 1) = Some []" by code_simp
  have 5: "turn opening_game = RED" by code_simp
  show ?thesis
    using reachable_opening 1 2 5
      select_keeps_selection_after_move [OF reachable_opening 1 2]
    by (auto simp: other_def)
qed

text \<open>
  The claim as stated fails there: the move is applied, and \<open>Game.selected\<close> is the man
  at address 12 after the call, not \<open>None\<close>.
\<close>

theorem selection_not_cleared_by_move:
  "selected opening_game = Some 12
   \<and> \<not> isl (Game_move opening_heap opening_game 4 1)
   \<and> fst (projr (Game_move opening_heap opening_game 4 1))
   \<and> \<not> isl (select opening_heap opening_game 4 1)
   \<and> selected (snd (snd (projr (select opening_heap opening_game 4 1)))) = Some 12
   \<and> turn (snd (snd (projr (select opening_heap opening_game 4 1)))) = WHITE"
  by code_simp

text \<open>
  Claim C5. In every reachable game, when a piece is selected and \<open>(row, col)\<close> is not an
  offered destination, the move fails, the selection is dropped, and the square is
  tried as a new selection in the same call: if it holds a piece of the turn's colour,
  that piece is selected, its moves are computed into \<open>valid_moves\<close> and the call
  returns \<open>True\<close>; if it is empty or holds a piece of the other colour, the call returns
  \<open>False\<close> with nothing selected.
\<close>

theorem select_reselects_after_failed_move:
  assumes "reachable h g" and "selected g = Some s" and "valid_moves g (r, c) = None"
  shows "(\<forall>a. get_piece (game_board g) r c = Inr (Ref a) \<and> color (h a) = turn g
           \<longrightarrow> (\<exists>m. Board_get_valid_moves h (game_board g) a = Inr m
                  \<and> select h g r c = Inr (True, h, g\<lparr>selected := Some a, valid_moves := m\<rparr>)))
       \<and> (get_piece (game_board g) r c = Inr Empty
            \<or> (\<exists>a. get_piece (game_board g) r c = Inr (Ref a) \<and> color (h a) \<noteq> turn g)
           \<longrightarrow> select h g r c = Inr (False, h, g\<lparr>selected := None\<rparr>))"
proof -
  from reachable_dark [OF assms(1)] have db: "dark_board h (game_board g)"
    by (simp add: dark_game_def)
  then have vg: "valid_grid (board (game_board g))" by (simp add: dark_board_iff)
  note general = select_reselects_when_valid [OF assms(2,3) vg, of h]
  have og: "on_grid (row (h a)) (col (h a))"
    if rd: "get_piece (game_board g) r c = Inr (Ref a)" for a
  proof -
    from grid_get_some [OF vg rd [unfolded get_piece_def]] obtain r0 c0 where
      o: "on_grid r0 c0" and at: "board (game_board g) ! nat r0 ! nat c0 = Ref a"
      by auto
    with db have "row (h a) = r0" "col (h a) = c0" by (auto simp: dark_board_iff)
    with o show ?thesis by simp
  qed
  from general og show ?thesis by blast
qed

text \<open>
  With the man at (5,0) selected, a click on the RED man at (5,2) selects that one, and a
  click on the empty square (3,0), which is not offered, leaves nothing selected.
\<close>

theorem select_reselects_after_failed_move_witness:
  "reachable opening_heap opening_game
   \<and> selected opening_game = Some 12 \<and> valid_moves opening_game (5, 2) = None
   \<and> valid_moves opening_game (3, 0) = None
   \<and> get_piece (game_board opening_game) 5 2 = Inr (Ref 13)
   \<and> color (opening_heap 13) = turn opening_game
   \<and> (\<exists>m. select opening_heap opening_game 5 2 =
             Inr (True, opening_heap, opening_game\<lparr>selected := Some 13, valid_moves := m\<rparr>))
   \<and> get_piece (game_board opening_game) 3 0 = Inr Empty
   \<and> select opening_heap opening_game 3 0
       = Inr (False, opening_heap, opening_game\<lparr>selected := None\<rparr>)"
proof -
  have 1: "selected opening_game = Some 12" by code_simp
  have 2: "valid_moves opening_game (5, 2) = None" by code_simp
  have 3: "valid_moves opening_game (3, 0) = None" by code_simp
  have 5: "get_piece (game_board opening_game) 5 2 = Inr (Ref 13)
     \<and> color (opening_heap 13) = turn opening_game" by code_simp
  have 6: "get_piece (game_board opening_game) 3 0 = Inr Empty" by code_simp
  show ?thesis
    using reachable_opening 1 2 3 5 6
      select_reselects_after_failed_move [OF reachable_opening 1 2]
      select_reselects_after_failed_move [OF reachable_opening 1 3]
    by blast
qed

end
